theory Spec2Isabelle
  imports Main "HOL-Library.Sublist" "HOL-Library.Multiset"
begin

section \<open>Errors\<close>

text \<open>
  A thrown JavaScript error object: the class name and the message. Every
  \<^verbatim>\<open>throw new Error(msg)\<close> of \<^verbatim>\<open>after-context.ts\<close> is an \<open>Error msg\<close>;
  a callback passed to \<^verbatim>\<open>unstable_after()\<close> may throw or reject with any such value.
\<close>

record js_error =
  err_name :: string
  err_message :: string

definition Error :: "string \<Rightarrow> js_error" where
  "Error msg = \<lparr>err_name = ''Error'', err_message = msg\<rparr>"

definition TypeError :: "string \<Rightarrow> js_error" where
  "TypeError msg = \<lparr>err_name = ''TypeError'', err_message = msg\<rparr>"

text \<open>\<^verbatim>\<open>String.prototype.endsWith\<close> on a search string, without a position.\<close>

definition endsWith :: "string \<Rightarrow> string \<Rightarrow> bool" where
  "endsWith s search =
     (length search \<le> length s \<and> drop (length s - length search) s = search)"

text \<open>
  The constructor of \<^verbatim>\<open>class InvariantError extends Error\<close>: the template literal
  handed to \<^verbatim>\<open>super\<close>, then \<^verbatim>\<open>this.name = 'InvariantError'\<close>. The optional
  \<^verbatim>\<open>ErrorOptions\<close> (the cause) do not enter the message and are left out.
\<close>

definition InvariantError :: "string \<Rightarrow> js_error" where
  "InvariantError message =
     \<lparr>err_name = ''InvariantError'',
      err_message =
        ''Invariant: '' @ (if endsWith message ''.'' then message else message @ ''.'')
          @ '' This is a bug in Next.js.''\<rparr>"

text \<open>\<^verbatim>\<open>errorWaitUntilNotAvailable(): never\<close> always throws this error.\<close>

definition errorWaitUntilNotAvailable :: js_error where
  "errorWaitUntilNotAvailable =
     Error ''`unstable_after()` will not work correctly, because `waitUntil` is not implemented for the current environment.''"

text \<open>The other errors thrown by \<^verbatim>\<open>AfterContextImpl\<close>, each at its throw site.\<close>

definition errorNotPromiseOrFunction :: js_error where
  "errorNotPromiseOrFunction =
     Error ''`unstable_after()` must receive a promise or a function as its argument''"

definition errorRequestStoreNotInitialized :: js_error where
  "errorRequestStoreNotInitialized =
     Error ''Invariant: expected `AfterContext.requestStore` to be initialized''"

definition errorOnCloseNotImplemented :: js_error where
  "errorOnCloseNotImplemented =
     Error ''`unstable_after()` received a function, but Next.js will not be able to run it, because `onClose` is not implemented for the current environment.''"

text \<open>The errors thrown by the two functions of the wrapped store's \<^verbatim>\<open>afterContext\<close>.\<close>

definition errorNestedAfter :: js_error where
  "errorNestedAfter =
     Error ''Cannot call `unstable_after()` from within `unstable_after()`''"

definition errorNestedRun :: js_error where
  "errorNestedRun =
     Error ''Invariant: Cannot call `AfterContext.run()` from within an `unstable_after()` callback''"

section \<open>Values handed to \<^verbatim>\<open>after\<close>\<close>

text \<open>
  \<^verbatim>\<open>after(task: AfterTask)\<close> inspects its argument at run time, so the model keeps the
  run-time shapes apart: the primitives, a genuine \<^verbatim>\<open>Promise\<close> (named by an
  identifier), a plain object, which has no \<^verbatim>\<open>catch\<close> method and whose only property
  of interest is \<^verbatim>\<open>then\<close>, and a function, which may carry a \<^verbatim>\<open>then\<close> property too.
\<close>

type_synonym promise_id = nat

datatype js_type = TyUndefined | TyObject | TyBoolean | TyNumber | TyString | TyFunction

datatype then_prop = ThenAbsent | ThenOfType js_type

datatype 'cb js_value =
    JsNull
  | JsUndefined
  | JsBoolean bool
  | JsNumber int
  | JsString string
  | JsPromise promise_id
  | JsObject then_prop
  | JsFunction then_prop 'cb

fun typeof_js :: "'cb js_value \<Rightarrow> js_type" where
  "typeof_js JsNull = TyObject"
| "typeof_js JsUndefined = TyUndefined"
| "typeof_js (JsBoolean b) = TyBoolean"
| "typeof_js (JsNumber n) = TyNumber"
| "typeof_js (JsString s) = TyString"
| "typeof_js (JsPromise p) = TyObject"
| "typeof_js (JsObject t) = TyObject"
| "typeof_js (JsFunction t f) = TyFunction"

text \<open>The \<^verbatim>\<open>then\<close> property of an object or function; a promise inherits a callable one.\<close>

fun then_of :: "'cb js_value \<Rightarrow> then_prop" where
  "then_of (JsPromise p) = ThenOfType TyFunction"
| "then_of (JsObject t) = t"
| "then_of (JsFunction t f) = t"
| "then_of v = ThenAbsent"

text \<open>
  \<^verbatim>\<open>isPromise\<close>, conjunct by conjunct: \<^verbatim>\<open>p !== null\<close>, \<^verbatim>\<open>typeof p === 'object'\<close>,
  \<^verbatim>\<open>'then' in p\<close> and \<^verbatim>\<open>typeof p.then === 'function'\<close>. The last two are only
  evaluated on objects, where \<open>then_of\<close> is the property.
\<close>

definition isPromise :: "'cb js_value \<Rightarrow> bool" where
  "isPromise p =
     (p \<noteq> JsNull \<and> typeof_js p = TyObject \<and> then_of p \<noteq> ThenAbsent
        \<and> then_of p = ThenOfType TyFunction)"

section \<open>The request store and the objects it refers to\<close>

text \<open>
  Objects live in a store addressed by position, so that "the same object" and "a fresh
  object" can be told apart. A store only grows: allocation appends.

  Modelled from the spec: the classes \<^verbatim>\<open>Headers\<close> and \<^verbatim>\<open>ResponseCookies\<close> are
  imported by \<^verbatim>\<open>after-context.ts\<close> and not part of it. A \<^verbatim>\<open>ResponseCookies\<close> object is
  bound to the \<^verbatim>\<open>Headers\<close> object handed to its constructor; a write is recorded in the
  cookie object itself and in the \<^verbatim>\<open>set-cookie\<close> entries of that headers object, and
  nowhere else.
\<close>

type_synonym addr = nat

datatype heap_obj =
    HeadersObj "(string \<times> string) list"
  | ResponseCookiesObj addr "(string \<times> string) list"
  | OpaqueObj nat

type_synonym js_heap = "heap_obj list"

definition new_Headers :: "js_heap \<Rightarrow> addr \<times> js_heap" where
  "new_Headers h = (length h, h @ [HeadersObj []])"

definition new_ResponseCookies :: "addr \<Rightarrow> js_heap \<Rightarrow> addr \<times> js_heap" where
  "new_ResponseCookies bound h = (length h, h @ [ResponseCookiesObj bound []])"

definition set_cookie_entries :: "(string \<times> string) list \<Rightarrow> (string \<times> string) list" where
  "set_cookie_entries jar = map (\<lambda>(k, v). (''set-cookie'', k @ ''='' @ v)) jar"

definition ResponseCookies_set :: "addr \<Rightarrow> string \<Rightarrow> string \<Rightarrow> js_heap \<Rightarrow> js_heap" where
  "ResponseCookies_set a k v h =
     (if a < length h then
        (case h ! a of
           ResponseCookiesObj bound jar \<Rightarrow>
             (let jar' = filter (\<lambda>(k', _). k' \<noteq> k) jar @ [(k, v)];
                  h1 = h[a := ResponseCookiesObj bound jar']
              in if bound < length h1 then
                   (case h1 ! bound of
                      HeadersObj es \<Rightarrow>
                        h1[bound := HeadersObj
                             (filter (\<lambda>(k', _). k' \<noteq> ''set-cookie'') es @ set_cookie_entries jar')]
                    | _ \<Rightarrow> h1)
                 else h1)
         | _ \<Rightarrow> h)
      else h)"

text \<open>
  The fields of \<^verbatim>\<open>RequestStore\<close> that \<^verbatim>\<open>wrapRequestStoreForAfterCallbacks\<close> reads or
  builds. Object-valued fields hold addresses; \<^verbatim>\<open>assetPrefix\<close> is a string. The type of
  the \<^verbatim>\<open>afterContext\<close> field is a parameter: the wrapper never reads the original one.
\<close>

record 'ac RequestStore =
  headers :: addr
  cookies :: addr
  draftMode :: addr
  mutableCookies :: addr
  assetPrefix :: string
  reactLoadableManifest :: addr
  afterContext :: 'ac

text \<open>
  The object literal put in the wrapped store's \<^verbatim>\<open>afterContext\<close>: two arrow functions
  that declare no parameter. \<open>'x\<close> is the type of whatever a caller passes (and of what
  \<^verbatim>\<open>run\<close> would return).
\<close>

record 'x AfterContextGuard =
  guard_after :: "'x list \<Rightarrow> js_error + unit"
  guard_run :: "'x list \<Rightarrow> js_error + 'x"

text \<open>
  The three getters return the original store's field on each read; the original store is
  not reassigned by this module, so the view holds the same addresses. The fresh
  \<^verbatim>\<open>new Headers()\<close> and \<^verbatim>\<open>new ResponseCookies(...)\<close> are allocated in the store.
\<close>

definition wrapRequestStoreForAfterCallbacks ::
  "'ac RequestStore \<Rightarrow> js_heap \<Rightarrow> 'x AfterContextGuard RequestStore \<times> js_heap" where
  "wrapRequestStoreForAfterCallbacks requestStore h =
     (let (fresh_headers, h1) = new_Headers h;
          (fresh_cookies, h2) = new_ResponseCookies fresh_headers h1
      in (\<lparr>headers = headers requestStore,
           cookies = cookies requestStore,
           draftMode = draftMode requestStore,
           mutableCookies = fresh_cookies,
           assetPrefix = assetPrefix requestStore,
           reactLoadableManifest = reactLoadableManifest requestStore,
           afterContext =
             \<lparr>guard_after = (\<lambda>args. Inl errorNestedAfter),
              guard_run = (\<lambda>args. Inl errorNestedRun)\<rparr>\<rparr>,
          h2))"

section \<open>Callbacks and promises\<close>

text \<open>
  What a callback can change: the object store and the rest of the program's state
  (\<open>'u\<close>). The console is kept apart, in the system state: a callback cannot read it.
\<close>

record 'u world =
  heap :: js_heap
  user :: 'u

text \<open>
  An \<^verbatim>\<open>AfterCallback\<close> is called with no argument; it finds the request store through
  \<^verbatim>\<open>requestAsyncStorage\<close> and may run inside a cache scope, so the model passes both. The
  call itself is synchronous: it throws, returns a plain value, or returns a promise.

  A returned promise is the rest of the callback's work. It has settled (fulfilled or
  rejected), or will never settle, or it has a next step: a piece of code that the event
  loop runs at some later time, without interruption, and that changes the world and
  leaves the promise that stands for what is still to do.
\<close>

datatype settlement = Fulfills | Rejects js_error | NeverSettles

datatype 'w js_promise =
    Settles settlement
  | Later "'w \<Rightarrow> 'w" "'w \<Rightarrow> 'w js_promise"

datatype 'w invocation =
    Threw js_error
  | Returned
  | ReturnedPromise "'w js_promise"

type_synonym ('u, 'x) AfterCallback =
  "'x AfterContextGuard RequestStore \<Rightarrow> bool \<Rightarrow> 'u world \<Rightarrow> 'u world invocation \<times> 'u world"

datatype promise_state = Pending | Fulfilled | Rejected js_error

text \<open>
  \<^verbatim>\<open>Promise.all\<close> over promises in given states: rejected when one of them is, pending
  when none is rejected and one is pending, fulfilled otherwise.
\<close>

fun Promise_all :: "promise_state list \<Rightarrow> promise_state" where
  "Promise_all [] = Fulfilled"
| "Promise_all (Rejected err # ps) = Rejected err"
| "Promise_all (Pending # ps) =
     (case Promise_all ps of Rejected err \<Rightarrow> Rejected err | _ \<Rightarrow> Pending)"
| "Promise_all (Fulfilled # ps) = Promise_all ps"

text \<open>\<^verbatim>\<open>Array.prototype.map\<close> with the state threaded through the calls, in order.\<close>

fun map_state :: "('a \<Rightarrow> 's \<Rightarrow> 'b \<times> 's) \<Rightarrow> 'a list \<Rightarrow> 's \<Rightarrow> 'b list \<times> 's" where
  "map_state f [] s = ([], s)"
| "map_state f (x # xs) s =
     (let (y, s1) = f x s; (ys, s2) = map_state f xs s1 in (y # ys, s2))"

type_synonym console_log = "(string \<times> js_error) list"

definition console_error :: "js_error \<Rightarrow> console_log \<Rightarrow> console_log" where
  "console_error err c =
     c @ [(''An error occurred in a function passed to `unstable_after()`:'', err)]"

text \<open>
  The arrow function mapped over \<^verbatim>\<open>this.afterCallbacks\<close>, an async function with a
  \<^verbatim>\<open>try\<close>/\<^verbatim>\<open>catch\<close> around \<^verbatim>\<open>await afterCallback()\<close>. Its state is \<open>Done\<close> once
  it has returned (its own promise is then fulfilled), or \<open>Awaiting p\<close> while it is
  suspended at the \<^verbatim>\<open>await\<close> on \<open>p\<close> (its own promise is then pending).

  \<open>start_callback\<close> is its synchronous part, run by \<^verbatim>\<open>map\<close>: the call of the
  callback. A throw is caught and logged at once and the function returns; anything else
  is awaited, a plain value as an already fulfilled promise.
\<close>

datatype 'w awaited = Done | Awaiting "'w js_promise"

definition start_callback ::
  "'x AfterContextGuard RequestStore \<Rightarrow> bool \<Rightarrow> ('u, 'x) AfterCallback \<Rightarrow>
     console_log \<times> 'u world \<Rightarrow> 'u world awaited \<times> (console_log \<times> 'u world)" where
  "start_callback store inScope afterCallback st =
     (case st of (c, w) \<Rightarrow>
        (case afterCallback store inScope w of
           (Threw err, w1) \<Rightarrow> (Done, (console_error err c, w1))
         | (Returned, w1) \<Rightarrow> (Awaiting (Settles Fulfills), (c, w1))
         | (ReturnedPromise p, w1) \<Rightarrow> (Awaiting p, (c, w1))))"

text \<open>
  One turn of the event loop given to one of the async functions. If the promise it
  awaits has a next step, that step runs. If the promise has settled, the async function
  is resumed after its \<^verbatim>\<open>await\<close>: on a rejection the \<^verbatim>\<open>catch\<close> block logs the
  error, and either way the function returns. A promise that never settles leaves it
  suspended, and a function that has returned does nothing more.
\<close>

definition resume_callback ::
  "'u world awaited \<Rightarrow> console_log \<times> 'u world \<Rightarrow> 'u world awaited \<times> (console_log \<times> 'u world)" where
  "resume_callback a st =
     (case st of (c, w) \<Rightarrow>
        (case a of
           Done \<Rightarrow> (Done, (c, w))
         | Awaiting (Later eff nxt) \<Rightarrow> (Awaiting (nxt w), (c, eff w))
         | Awaiting (Settles Fulfills) \<Rightarrow> (Done, (c, w))
         | Awaiting (Settles (Rejects err)) \<Rightarrow> (Done, (console_error err c, w))
         | Awaiting (Settles NeverSettles) \<Rightarrow> (Awaiting (Settles NeverSettles), (c, w))))"

text \<open>
  The event loop after the synchronous part. The async functions are resumed when their
  own promises settle, in an order the program does not control: a schedule lists, turn
  by turn, the position in the queue of the async function that gets the turn. Every
  statement about a drain is made for an arbitrary schedule. A position outside the queue
  is a turn for some other work.
\<close>

type_synonym schedule = "nat list"

fun event_loop ::
  "schedule \<Rightarrow> 'u world awaited list \<Rightarrow> console_log \<times> 'u world \<Rightarrow>
     'u world awaited list \<times> (console_log \<times> 'u world)" where
  "event_loop [] as st = (as, st)"
| "event_loop (i # sched) as st =
     (if i < length as
      then (case resume_callback (as ! i) st of (a, st1) \<Rightarrow> event_loop sched (as[i := a]) st1)
      else event_loop sched as st)"

definition promise_of :: "'w awaited \<Rightarrow> promise_state" where
  "promise_of a = (case a of Done \<Rightarrow> Fulfilled | Awaiting p \<Rightarrow> Pending)"

text \<open>
  \<^verbatim>\<open>runCallbacksImpl\<close>: all callbacks are started by \<^verbatim>\<open>map\<close>, in queue order, then the
  promises of the async functions are joined by \<^verbatim>\<open>await Promise.all(...)\<close> while the
  event loop runs. \<open>drain\<close> gives the async functions' states after the turns of the
  schedule, and \<open>runCallbacksImpl\<close> the state of its own promise at that time: a
  rejection of the joined promise would reject it.
\<close>

definition drain ::
  "'x AfterContextGuard RequestStore \<Rightarrow> bool \<Rightarrow> ('u, 'x) AfterCallback list \<Rightarrow> schedule \<Rightarrow>
     console_log \<times> 'u world \<Rightarrow> 'u world awaited list \<times> (console_log \<times> 'u world)" where
  "drain store inScope afterCallbacks sched st =
     (let (started, st1) = map_state (start_callback store inScope) afterCallbacks st
      in event_loop sched started st1)"

definition runCallbacksImpl ::
  "'x AfterContextGuard RequestStore \<Rightarrow> bool \<Rightarrow> ('u, 'x) AfterCallback list \<Rightarrow> schedule \<Rightarrow>
     console_log \<times> 'u world \<Rightarrow> promise_state \<times> (console_log \<times> 'u world)" where
  "runCallbacksImpl store inScope afterCallbacks sched st =
     (let (as, st1) = drain store inScope afterCallbacks sched st
      in (Promise_all (map promise_of as), st1))"

section \<open>\<^verbatim>\<open>AfterContextImpl\<close>\<close>

text \<open>
  The host bindings \<^verbatim>\<open>waitUntil\<close>, \<^verbatim>\<open>onClose\<close> and \<^verbatim>\<open>cacheScope\<close> are functions of the
  host; the class only tests whether each is defined and calls it. A field records whether
  the binding is defined, and the system state records the calls: what was passed to
  \<^verbatim>\<open>waitUntil\<close>, and how many \<^verbatim>\<open>resolve\<close> functions \<^verbatim>\<open>onClose\<close> holds.
\<close>

record ('u, 'x) AfterContextImpl =
  waitUntil :: bool
  onClose :: bool
  cacheScope :: bool
  requestStore :: "unit RequestStore option"
  afterCallbacks :: "('u, 'x) AfterCallback list"

datatype waited = WaitTask promise_id | WaitDrainJob

record ('u, 'x) system =
  ctx :: "('u, 'x) AfterContextImpl"
  waitUntilCalls :: "waited list"
  closeListeners :: nat
  rejectionHandled :: "promise_id set"
  console :: console_log
  drainJobs :: "promise_state list"
  world :: "'u world"

text \<open>
  Modelled from the spec: \<^verbatim>\<open>CacheScope.run\<close> and \<^verbatim>\<open>getTracer().trace\<close> are imported and
  not part of the sources. \<^verbatim>\<open>cacheScope.run(fn)\<close> runs \<open>fn\<close> inside the cache scope and
  returns its result; \<^verbatim>\<open>trace(span, fn)\<close> runs \<open>fn\<close> and returns its result.
\<close>

definition cacheScope_run :: "(bool \<Rightarrow> 'r) \<Rightarrow> 'r" where
  "cacheScope_run fn = fn True"

definition tracer_trace :: "(unit \<Rightarrow> 'r) \<Rightarrow> 'r" where
  "tracer_trace fn = fn ()"

text \<open>
  \<^verbatim>\<open>run\<close>: the callback is the request handler; it works on the whole system (it may call
  \<^verbatim>\<open>after\<close>) and returns a value or throws, and \<^verbatim>\<open>run\<close> returns or throws the same.
\<close>

definition run ::
  "unit RequestStore \<Rightarrow> (bool \<Rightarrow> ('u, 'x) system \<Rightarrow> (js_error + 'r) \<times> ('u, 'x) system) \<Rightarrow>
     ('u, 'x) system \<Rightarrow> (js_error + 'r) \<times> ('u, 'x) system" where
  "run store callback sys =
     (let sys1 = sys\<lparr>ctx := (ctx sys)\<lparr>requestStore := Some store\<rparr>\<rparr>
      in if cacheScope (ctx sys1) then cacheScope_run (\<lambda>inScope. callback inScope sys1)
         else callback False sys1)"

text \<open>
  \<^verbatim>\<open>runCallbacks\<close>, given \<^verbatim>\<open>this.requestStore!\<close>: the non-null assertion checks nothing,
  so an undefined store reaches \<^verbatim>\<open>wrapRequestStoreForAfterCallbacks\<close>, whose object
  literal reads \<^verbatim>\<open>requestStore.assetPrefix\<close> and throws a \<^verbatim>\<open>TypeError\<close>, which rejects
  the async function. The schedule is the one of the event loop during the pass.
\<close>

definition runCallbacks ::
  "('u, 'x) AfterContextImpl \<Rightarrow> unit RequestStore option \<Rightarrow> schedule \<Rightarrow>
     console_log \<times> 'u world \<Rightarrow> promise_state \<times> (console_log \<times> 'u world)" where
  "runCallbacks this store sched st =
     (if length (afterCallbacks this) = 0 then (Fulfilled, st)
      else
        (case store of
           None \<Rightarrow> (Rejected (TypeError ''Cannot read properties of undefined''), st)
         | Some rs \<Rightarrow>
             (case st of (c, w) \<Rightarrow>
                (let (readonlyRequestStore, h) = wrapRequestStoreForAfterCallbacks rs (heap w);
                     st1 = (c, w\<lparr>heap := h\<rparr>)
                 in if cacheScope this
                    then cacheScope_run
                           (\<lambda>inScope. runCallbacksImpl readonlyRequestStore inScope
                                        (afterCallbacks this) sched st1)
                    else runCallbacksImpl readonlyRequestStore False (afterCallbacks this)
                           sched st1))))"

text \<open>
  \<^verbatim>\<open>runCallbacksOnClose\<close> in its two parts. Up to the \<^verbatim>\<open>await\<close> it runs synchronously:
  the promise executor hands \<^verbatim>\<open>resolve\<close> to \<^verbatim>\<open>onClose\<close>. After the host has called
  \<^verbatim>\<open>resolve\<close> it goes on with \<^verbatim>\<open>runCallbacks(this.requestStore!)\<close>, reading the store
  and the queue as they are then; the state of its promise after the turns of the
  schedule is recorded.
\<close>

definition runCallbacksOnClose_start :: "('u, 'x) system \<Rightarrow> ('u, 'x) system" where
  "runCallbacksOnClose_start sys = sys\<lparr>closeListeners := Suc (closeListeners sys)\<rparr>"

definition runCallbacksOnClose_resume :: "schedule \<Rightarrow> ('u, 'x) system \<Rightarrow> ('u, 'x) system" where
  "runCallbacksOnClose_resume sched sys =
     (case runCallbacks (ctx sys) (requestStore (ctx sys)) sched (console sys, world sys) of
        (p, (c, w)) \<Rightarrow> sys\<lparr>console := c, world := w, drainJobs := drainJobs sys @ [p]\<rparr>)"

text \<open>
  The host fires the close signal: every \<^verbatim>\<open>resolve\<close> it holds is called, once, and each
  suspended \<^verbatim>\<open>runCallbacksOnClose\<close> goes on; the event loop then takes the turns of the
  schedule. (\<open>addCallback\<close> registers a listener only when the queue is empty, so the
  host holds at most one; were there more, each pass would take the same turns.)
\<close>

fun fire_listeners :: "nat \<Rightarrow> schedule \<Rightarrow> ('u, 'x) system \<Rightarrow> ('u, 'x) system" where
  "fire_listeners 0 sched sys = sys"
| "fire_listeners (Suc n) sched sys =
     fire_listeners n sched (runCallbacksOnClose_resume sched sys)"

definition close_signal :: "schedule \<Rightarrow> ('u, 'x) system \<Rightarrow> ('u, 'x) system" where
  "close_signal sched sys =
     fire_listeners (closeListeners sys) sched (sys\<lparr>closeListeners := 0\<rparr>)"

definition call_waitUntil :: "waited \<Rightarrow> ('u, 'x) system \<Rightarrow> ('u, 'x) system" where
  "call_waitUntil p sys = sys\<lparr>waitUntilCalls := waitUntilCalls sys @ [p]\<rparr>"

text \<open>
  \<^verbatim>\<open>addCallback\<close>. A throw leaves the method before \<^verbatim>\<open>this.afterCallbacks.push\<close>. The
  argument of \<^verbatim>\<open>this.waitUntil(...)\<close> is evaluated first, so \<^verbatim>\<open>onClose\<close> is called
  before \<^verbatim>\<open>waitUntil\<close>.
\<close>

definition push_callback :: "('u, 'x) AfterCallback \<Rightarrow> ('u, 'x) system \<Rightarrow> ('u, 'x) system" where
  "push_callback callback sys =
     sys\<lparr>ctx := (ctx sys)\<lparr>afterCallbacks := afterCallbacks (ctx sys) @ [callback]\<rparr>\<rparr>"

definition addCallback ::
  "('u, 'x) AfterCallback \<Rightarrow> ('u, 'x) system \<Rightarrow> (js_error + unit) \<times> ('u, 'x) system" where
  "addCallback callback sys =
     (if length (afterCallbacks (ctx sys)) = 0 then
        (if \<not> waitUntil (ctx sys) then (Inl errorWaitUntilNotAvailable, sys)
         else if requestStore (ctx sys) = None then (Inl errorRequestStoreNotInitialized, sys)
         else if \<not> onClose (ctx sys) then (Inl errorOnCloseNotImplemented, sys)
         else (Inr (),
               push_callback callback
                 (call_waitUntil WaitDrainJob (runCallbacksOnClose_start sys))))
      else (Inr (), push_callback callback sys))"

text \<open>
  \<^verbatim>\<open>task.catch(() => {})\<close>: on a promise it attaches a handler to the rejection; a plain
  object has no \<^verbatim>\<open>catch\<close> to call. The promise is returned with the new state, to be
  handed to \<^verbatim>\<open>waitUntil\<close>.
\<close>

definition task_catch ::
  "'cb js_value \<Rightarrow> ('u, 'x) system \<Rightarrow> js_error + promise_id \<times> ('u, 'x) system" where
  "task_catch task sys =
     (case task of
        JsPromise p \<Rightarrow> Inr (p, sys\<lparr>rejectionHandled := insert p (rejectionHandled sys)\<rparr>)
      | _ \<Rightarrow> Inl (TypeError ''task.catch is not a function''))"

text \<open>
  \<^verbatim>\<open>after\<close>. The test \<^verbatim>\<open>typeof task === 'function'\<close> holds exactly for a
  \<open>JsFunction\<close>; the callback handed to \<^verbatim>\<open>addCallback\<close> is the arrow function that
  calls the task inside the tracer.
\<close>

definition after ::
  "('u, 'x) AfterCallback js_value \<Rightarrow> ('u, 'x) system \<Rightarrow>
     (js_error + unit) \<times> ('u, 'x) system" where
  "after task sys =
     (if isPromise task then
        (case task_catch task sys of
           Inl err \<Rightarrow> (Inl err, sys)
         | Inr (p, sys1) \<Rightarrow>
             if \<not> waitUntil (ctx sys1) then (Inl errorWaitUntilNotAvailable, sys1)
             else (Inr (), call_waitUntil (WaitTask p) sys1))
      else
        (case task of
           JsFunction t f \<Rightarrow>
             addCallback (\<lambda>store inScope w. tracer_trace (\<lambda>_. f store inScope w)) sys
         | _ \<Rightarrow> (Inl errorNotPromiseOrFunction, sys)))"

text \<open>
  A rejection of promise \<open>p\<close> raises the host's unhandled-rejection condition when no
  handler has been attached to it.
\<close>

definition unhandled_rejection :: "('u, 'x) system \<Rightarrow> promise_id \<Rightarrow> bool" where
  "unhandled_rejection sys p = (p \<notin> rejectionHandled sys)"

text \<open>
  \<^verbatim>\<open>createAfterContext(opts)\<close>: a new \<^verbatim>\<open>AfterContextImpl\<close> with the three bindings, no
  request store and an empty queue; and the system around a new context.
\<close>

definition createAfterContext :: "bool \<Rightarrow> bool \<Rightarrow> bool \<Rightarrow> ('u, 'x) AfterContextImpl" where
  "createAfterContext wu oc cs =
     \<lparr>waitUntil = wu, onClose = oc, cacheScope = cs, requestStore = None, afterCallbacks = []\<rparr>"

definition initial_system :: "('u, 'x) AfterContextImpl \<Rightarrow> 'u world \<Rightarrow> ('u, 'x) system" where
  "initial_system this w =
     \<lparr>ctx = this, waitUntilCalls = [], closeListeners = 0, rejectionHandled = {},
      console = [], drainJobs = [], world = w\<rparr>"

section \<open>What a drain pass is compared with\<close>

text \<open>
  The reference for "no callback is skipped, none is held up by another": the same
  callbacks and the same schedule with no error handling at all. Every callback of the
  queue is called, in order, whatever the others did; then the event loop gives the turns
  of the schedule to the promises the calls returned (a call that threw has none, a
  plain value counts as a fulfilled promise), and each turn runs the next step of that
  promise, whatever has become of the others. The result lists what each call did, what
  has become of each returned promise, and the world.
\<close>

definition promise_returned :: "'w invocation \<Rightarrow> 'w js_promise option" where
  "promise_returned r =
     (case r of
        Threw err \<Rightarrow> None
      | Returned \<Rightarrow> Some (Settles Fulfills)
      | ReturnedPromise p \<Rightarrow> Some p)"

fun advance ::
  "schedule \<Rightarrow> 'w js_promise option list \<Rightarrow> 'w \<Rightarrow> 'w js_promise option list \<times> 'w" where
  "advance [] ps w = (ps, w)"
| "advance (i # sched) ps w =
     (if i < length ps
      then (case ps ! i of
              Some (Later eff nxt) \<Rightarrow> advance sched (ps[i := Some (nxt w)]) (eff w)
            | _ \<Rightarrow> advance sched ps w)
      else advance sched ps w)"

definition call_all ::
  "'x AfterContextGuard RequestStore \<Rightarrow> bool \<Rightarrow> ('u, 'x) AfterCallback list \<Rightarrow> schedule \<Rightarrow>
     'u world \<Rightarrow> 'u world invocation list \<times> 'u world js_promise option list \<times> 'u world" where
  "call_all store inScope cbs sched w =
     (let (invs, w1) = map_state (\<lambda>cb. cb store inScope) cbs w;
          (ps, w2) = advance sched (map promise_returned invs) w1
      in (invs, ps, w2))"

text \<open>The errors of the calls that threw, in queue order.\<close>

fun thrown :: "'w invocation list \<Rightarrow> js_error list" where
  "thrown [] = []"
| "thrown (Threw err # invs) = err # thrown invs"
| "thrown (r # invs) = thrown invs"

text \<open>
  How the state of an async function relates to the promise its callback returned: a
  callback that threw has returned from its async function; otherwise the function still
  awaits the promise as it now is, or the promise has settled and the function has been
  resumed and has returned. \<open>caught\<close> is the rejection a returned function has been
  resumed with, if any.
\<close>

definition tracks :: "'w awaited \<Rightarrow> 'w js_promise option \<Rightarrow> bool" where
  "tracks a po =
     (case po of
        None \<Rightarrow> a = Done
      | Some p \<Rightarrow>
          a = Awaiting p \<or>
          a = Done \<and> (case p of Settles NeverSettles \<Rightarrow> False | Settles s \<Rightarrow> True
               | Later eff nxt \<Rightarrow> False))"

definition caught :: "'w awaited \<times> 'w js_promise option \<Rightarrow> js_error multiset" where
  "caught x =
     (case x of (Done, Some (Settles (Rejects err))) \<Rightarrow> {#err#} | _ \<Rightarrow> {#})"

definition all_caught :: "'w awaited list \<Rightarrow> 'w js_promise option list \<Rightarrow> js_error multiset" where
  "all_caught as ps = sum_list (map caught (zip as ps))"

text \<open>
  An async function is at rest when it has returned or awaits a promise that never
  settles: no further turn changes it.
\<close>

definition at_rest :: "'w awaited \<Rightarrow> bool" where
  "at_rest a = (a = Done \<or> a = Awaiting (Settles NeverSettles))"

text \<open>
  An async function whose callback returned a plain value: it has returned, or it awaits
  a fulfilled promise.
\<close>

definition quiet :: "'w awaited \<Rightarrow> bool" where
  "quiet a = (a = Done \<or> a = Awaiting (Settles Fulfills))"

text \<open>
  The state of an async function right after the call of its callback, and the console
  entry written for a caught error.
\<close>

definition started_as :: "'w js_promise option \<Rightarrow> 'w awaited" where
  "started_as po = (case po of None \<Rightarrow> Done | Some p \<Rightarrow> Awaiting p)"

definition log_entry :: "js_error \<Rightarrow> string \<times> js_error" where
  "log_entry err = (''An error occurred in a function passed to `unstable_after()`:'', err)"

section \<open>Callbacks used in the statements\<close>



definition cookie_cb :: "string \<Rightarrow> string \<Rightarrow> ('u, 'x) AfterCallback" where
  "cookie_cb k v store inScope w =
     (Returned, w\<lparr>heap := ResponseCookies_set (mutableCookies store) k v (heap w)\<rparr>)"

text \<open>Callbacks for the examples: the user state is the list of notes written so far.\<close>

definition note_cb :: "string \<Rightarrow> (string list, 'x) AfterCallback" where
  "note_cb s store inScope w = (Returned, w\<lparr>user := user w @ [s]\<rparr>)"

definition throwing_cb :: "js_error \<Rightarrow> (string list, 'x) AfterCallback" where
  "throwing_cb err store inScope w = (Threw err, w)"

definition rejecting_cb :: "js_error \<Rightarrow> string \<Rightarrow> (string list, 'x) AfterCallback" where
  "rejecting_cb err s store inScope w =
     (ReturnedPromise
        (Later (\<lambda>w'. w'\<lparr>user := user w' @ [s]\<rparr>) (\<lambda>w'. Settles (Rejects err))), w)"

definition example_heap :: js_heap where
  "example_heap =
     [HeadersObj [(''host'', ''example.com'')], OpaqueObj 0, OpaqueObj 1,
      HeadersObj [], ResponseCookiesObj 3 [(''session'', ''abc'')], OpaqueObj 2]"

definition example_store :: "unit RequestStore" where
  "example_store =
     \<lparr>headers = 0, cookies = 1, draftMode = 2, mutableCookies = 4,
      assetPrefix = ''/assets'', reactLoadableManifest = 5, afterContext = ()\<rparr>"

definition example_world :: "string list world" where
  "example_world = \<lparr>heap = example_heap, user = []\<rparr>"

definition example_system :: "bool \<Rightarrow> bool \<Rightarrow> (string list, nat) system" where
  "example_system wu oc = initial_system (createAfterContext wu oc False) example_world"

section \<open>Examples\<close>

text \<open>
  An example queue: a callback that succeeds, one that throws synchronously, one whose
  promise rejects after leaving a note, and one more that succeeds.
\<close>

definition example_queue :: "(string list, nat) AfterCallback list" where
  "example_queue =
     [note_cb ''first'', throwing_cb (Error ''boom''),
      rejecting_cb (Error ''late'') ''third'', note_cb ''last'']"

definition example_context :: "(string list, nat) AfterContextImpl" where
  "example_context =
     (createAfterContext True True False)
       \<lparr>requestStore := Some example_store, afterCallbacks := example_queue\<rparr>"

text \<open>
  A queue of two callbacks whose promises each leave a note and then reject; the event
  loop may settle the second before the first.
\<close>

definition late_queue :: "(string list, nat) AfterCallback list" where
  "late_queue = [rejecting_cb (Error ''late1'') ''x'', rejecting_cb (Error ''late2'') ''y'']"

definition late_context :: "(string list, nat) AfterContextImpl" where
  "late_context =
     (createAfterContext True True False)
       \<lparr>requestStore := Some example_store, afterCallbacks := late_queue\<rparr>"


definition cookie_context :: "(string list, nat) AfterContextImpl" where
  "cookie_context =
     (createAfterContext True True False)
       \<lparr>requestStore := Some example_store,
        afterCallbacks := map (\<lambda>(k, v). cookie_cb k v) [(''session'', ''changed'')]\<rparr>"

text \<open>
  An example run: the handler has been entered through \<open>run\<close> with both capabilities
  defined; three functions are scheduled, the second of which throws; then the close
  signal fires.
\<close>

definition example_tasks :: "(then_prop \<times> (string list, nat) AfterCallback) list" where
  "example_tasks =
     [(ThenAbsent, note_cb ''a''), (ThenAbsent, throwing_cb (Error ''boom'')),
      (ThenAbsent, note_cb ''c'')]"

definition example_running :: "(string list, nat) system" where
  "example_running =
     snd (run example_store (\<lambda>inScope s. (Inr (0 :: nat), s)) (example_system True True))"

definition example_scheduled :: "(string list, nat) system" where
  "example_scheduled =
     snd (map_state after (map (\<lambda>(t, f). JsFunction t f) example_tasks) example_running)"

definition example_spent :: "(string list, nat) system" where
  "example_spent = close_signal [2, 0] example_scheduled"

section \<open>The internal-bug error\<close>

lemma endsWith_period: "endsWith m ''.'' = (m \<noteq> [] \<and> last m = CHR ''.'')"
proof (cases m rule: rev_cases)
  case Nil
  then show ?thesis by (simp add: endsWith_def)
next
  case (snoc ys y)
  then show ?thesis by (auto simp: endsWith_def)
qed

text \<open>
  C8 (amended). For every message \<open>m\<close> the error built by \<open>InvariantError\<close> is named
  \<open>InvariantError\<close> and its message is \<open>Invariant: \<close>, then \<open>m\<close> itself, then one more
  period exactly when \<open>m\<close> does not already end with one, then the note
  \<open> This is a bug in Next.js.\<close>. Nothing of \<open>m\<close> is removed: a message that ends with
  several periods keeps all of them.
\<close>

theorem InvariantError_message:
  "err_name (InvariantError m) = ''InvariantError'' \<and>
   err_message (InvariantError m) =
     ''Invariant: '' @ m @ (if m \<noteq> [] \<and> last m = CHR ''.'' then [] else ''.'')
       @ '' This is a bug in Next.js.''"
  by (simp add: InvariantError_def endsWith_period)

theorem InvariantError_message_witness:
  "err_message (InvariantError ''failed..'') = ''Invariant: failed.. This is a bug in Next.js.'' \<and>
   err_message (InvariantError ''failed'') = ''Invariant: failed. This is a bug in Next.js.''"
  using InvariantError_message [of "''failed..''"] InvariantError_message [of "''failed''"]
  by simp

text \<open>
  Counterexample to C8 as the specification states it, at a message that ends with two
  periods: both are kept,
  so the message is not the one with a single period.
\<close>

theorem InvariantError_multiple_periods_counterexample:
  "err_message (InvariantError ''a..'') = ''Invariant: a.. This is a bug in Next.js.'' \<and>
   err_message (InvariantError ''a..'') \<noteq> ''Invariant: a. This is a bug in Next.js.''"
  by (simp add: InvariantError_def endsWith_def)

section \<open>Error messages\<close>

lemma errorWaitUntil_names:
  "sublist ''waitUntil'' (err_message errorWaitUntilNotAvailable) \<and>
   \<not> sublist ''onClose'' (err_message errorWaitUntilNotAvailable)"
  by (simp add: errorWaitUntilNotAvailable_def Error_def sublist_Cons_right)

lemma errorOnClose_names:
  "sublist ''onClose'' (err_message errorOnCloseNotImplemented) \<and>
   \<not> sublist ''waitUntil'' (err_message errorOnCloseNotImplemented)"
  by (simp add: errorOnCloseNotImplemented_def Error_def sublist_Cons_right)

section \<open>A drain pass\<close>

lemma console_error_entry: "console_error err c = c @ [log_entry err]"
  by (simp add: console_error_def log_entry_def)

lemma map_state_length: "map_state f xs s = (ys, s') \<Longrightarrow> length ys = length xs"
  by (induction xs arbitrary: s ys) (auto split: prod.splits)


lemma start_callback_step:
  "start_callback store b cb (c, w) =
     (case cb store b w of
        (r, w1) \<Rightarrow> (started_as (promise_returned r), (c @ map log_entry (thrown [r]), w1)))"
proof -
  obtain r w1 where cb: "cb store b w = (r, w1)" by (cases "cb store b w")
  show ?thesis
    by (cases r) (simp_all add: cb start_callback_def started_as_def promise_returned_def
        console_error_entry)
qed

lemma thrown_Cons: "thrown (r # invs) = thrown [r] @ thrown invs"
  by (cases r) simp_all


lemma start_all:
  "map_state (start_callback store b) cbs (c, w) =
     (case map_state (\<lambda>cb. cb store b) cbs w of
        (invs, w1) \<Rightarrow>
          (map started_as (map promise_returned invs), (c @ map log_entry (thrown invs), w1)))"
proof (induction cbs arbitrary: c w)
  case Nil
  then show ?case by simp
next
  case (Cons cb cbs)
  obtain r w1 where cb: "cb store b w = (r, w1)" by (cases "cb store b w")
  obtain invs w2 where rest: "map_state (\<lambda>cb. cb store b) cbs w1 = (invs, w2)"
    by (cases "map_state (\<lambda>cb. cb store b) cbs w1")
  have t: "thrown (r # invs) = thrown [r] @ thrown invs" by (rule thrown_Cons)
  show ?case
    by (simp add: start_callback_step cb rest Cons t)
qed

lemma tracks_started: "tracks (started_as po) po"
  by (cases po) (simp_all add: tracks_def started_as_def)

lemma caught_started: "caught (started_as po, po) = {#}"
  by (cases po) (simp_all add: caught_def started_as_def)

lemma all_caught_started: "all_caught (map started_as ps) ps = {#}"
  by (induction ps) (simp_all add: all_caught_def caught_started)

lemma sum_list_map_update:
  fixes f :: "'a \<Rightarrow> 'b multiset"
  shows "i < length xs \<Longrightarrow>
    sum_list (map f (xs[i := v])) + f (xs ! i) = sum_list (map f xs) + f v"
proof (induction xs arbitrary: i)
  case Nil
  then show ?case by simp
next
  case (Cons x xs)
  show ?case
  proof (cases i)
    case 0
    then show ?thesis by (simp add: add.commute)
  next
    case (Suc j)
    with Cons.prems have "j < length xs" by simp
    from Cons.IH [OF this] show ?thesis by (simp add: Suc add.assoc)
  qed
qed

lemma all_caught_update:
  assumes "i < length as" "length as = length ps"
  shows "all_caught (as[i := a]) (ps[i := po]) + caught (as ! i, ps ! i)
           = all_caught as ps + caught (a, po)"
proof -
  have "i < length (zip as ps)" using assms by simp
  from sum_list_map_update [OF this, of caught "(a, po)"] assms show ?thesis
    by (simp add: all_caught_def zip_update)
qed

lemma event_loop_tracks:
  assumes "event_loop sched as (c, w) = (as', (c', w'))"
    and "advance sched ps w = (ps', w2)"
    and "list_all2 tracks as ps"
  shows "w' = w2 \<and> list_all2 tracks as' ps' \<and>
         (\<exists>rs. c' = c @ map log_entry rs \<and> mset rs + all_caught as ps = all_caught as' ps')"
  using assms
proof (induction sched arbitrary: as ps c w)
  case Nil
  then show ?case by auto
next
  case (Cons i sched)
  from Cons.prems(3) have len: "length as = length ps" by (rule list_all2_lengthD)
  show ?case
  proof (cases "i < length as")
    case False
    with Cons.prems len have "event_loop sched as (c, w) = (as', (c', w'))"
      and "advance sched ps w = (ps', w2)" by simp_all
    from Cons.IH [OF this Cons.prems(3)] show ?thesis .
  next
    case True
    with len have ips: "i < length ps" by simp
    from Cons.prems(3) True have tr: "tracks (as ! i) (ps ! i)" by (rule list_all2_nthD)
    obtain a c1 w1 where rc: "resume_callback (as ! i) (c, w) = (a, (c1, w1))"
      by (cases "resume_callback (as ! i) (c, w)") auto
    from Cons.prems(1) True rc have ev: "event_loop sched (as[i := a]) (c1, w1) = (as', (c', w'))"
      by simp
    obtain po where adv: "advance sched (ps[i := po]) w1 = (ps', w2)"
      and tr1: "tracks a po"
      and cg: "\<exists>rs1. c1 = c @ map log_entry rs1 \<and>
                 mset rs1 + caught (as ! i, ps ! i) = caught (a, po)"
    proof (cases "as ! i")
      case Done
      with rc have a: "a = Done" "c1 = c" "w1 = w" by (simp_all add: resume_callback_def)
      from tr Done have nl: "\<And>eff nxt. ps ! i \<noteq> Some (Later eff nxt)"
        by (auto simp: tracks_def split: option.splits)
      then have "advance (i # sched) ps w = advance sched ps w"
        using ips by (auto split: option.splits js_promise.splits)
      with Cons.prems(2) have "advance sched ps w1 = (ps', w2)"
        by (simp add: a)
      then have "advance sched (ps[i := ps ! i]) w1 = (ps', w2)"
        by (simp only: list_update_id)
      moreover have "tracks a (ps ! i)" using tr Done a by simp
      moreover have "\<exists>rs1. c1 = c @ map log_entry rs1 \<and>
          mset rs1 + caught (as ! i, ps ! i) = caught (a, ps ! i)"
        using Done a by (intro exI [of _ "[]"]) simp
      ultimately show ?thesis by (rule that)
    next
      case (Awaiting p)
      with tr have pi: "ps ! i = Some p"
        by (auto simp: tracks_def split: option.splits)
      show ?thesis
      proof (cases p)
        case (Later eff nxt)
        with rc Awaiting have a: "a = Awaiting (nxt w)" "c1 = c" "w1 = eff w"
          by (simp_all add: resume_callback_def)
        from Cons.prems(2) ips pi Later
        have "advance sched (ps[i := Some (nxt w)]) w1 = (ps', w2)" by (simp add: a)
        moreover have "tracks a (Some (nxt w))" by (simp add: a tracks_def)
        moreover have "\<exists>rs1. c1 = c @ map log_entry rs1 \<and>
            mset rs1 + caught (as ! i, ps ! i) = caught (a, Some (nxt w))"
          using Awaiting a by (intro exI [of _ "[]"]) (simp add: caught_def)
        ultimately show ?thesis by (rule that)
      next
        case (Settles s)
        from Cons.prems(2) ips pi Settles
        have "advance sched ps w = (ps', w2)" by simp
        then have adv0: "advance sched (ps[i := ps ! i]) w = (ps', w2)"
          by (simp only: list_update_id)
        show ?thesis
        proof (cases s)
          case Fulfills
          with rc Awaiting Settles have a: "a = Done" "c1 = c" "w1 = w"
            by (simp_all add: resume_callback_def)
          have "advance sched (ps[i := ps ! i]) w1 = (ps', w2)"
            using adv0 by (simp only: a(3))
          moreover have "tracks a (ps ! i)" by (simp add: a pi Settles Fulfills tracks_def)
          moreover have "\<exists>rs1. c1 = c @ map log_entry rs1 \<and>
              mset rs1 + caught (as ! i, ps ! i) = caught (a, ps ! i)"
            using Awaiting a pi Settles Fulfills
            by (intro exI [of _ "[]"]) (simp add: caught_def)
          ultimately show ?thesis by (rule that)
        next
          case (Rejects err)
          with rc Awaiting Settles have a: "a = Done" "c1 = c @ [log_entry err]" "w1 = w"
            by (simp_all add: resume_callback_def console_error_entry)
          have "advance sched (ps[i := ps ! i]) w1 = (ps', w2)"
            using adv0 by (simp only: a(3))
          moreover have "tracks a (ps ! i)" by (simp add: a pi Settles Rejects tracks_def)
          moreover have "\<exists>rs1. c1 = c @ map log_entry rs1 \<and>
              mset rs1 + caught (as ! i, ps ! i) = caught (a, ps ! i)"
            using Awaiting a pi Settles Rejects
            by (intro exI [of _ "[err]"]) (simp add: caught_def)
          ultimately show ?thesis by (rule that)
        next
          case NeverSettles
          with rc Awaiting Settles have a: "a = as ! i" "c1 = c" "w1 = w"
            by (simp_all add: resume_callback_def)
          have "advance sched (ps[i := ps ! i]) w1 = (ps', w2)"
            using adv0 by (simp only: a(3))
          moreover have "tracks a (ps ! i)" using tr a by simp
          moreover have "\<exists>rs1. c1 = c @ map log_entry rs1 \<and>
              mset rs1 + caught (as ! i, ps ! i) = caught (a, ps ! i)"
            using a by (intro exI [of _ "[]"]) simp
          ultimately show ?thesis by (rule that)
        qed
      qed
    qed
    from cg obtain rs1 where c1: "c1 = c @ map log_entry rs1"
      and m1: "mset rs1 + caught (as ! i, ps ! i) = caught (a, po)" by blast
    have tr2: "list_all2 tracks (as[i := a]) (ps[i := po])"
      using Cons.prems(3) tr1 by (rule list_all2_update_cong)
    from Cons.IH [OF ev adv tr2] obtain rs2 where
      w: "w' = w2" and t: "list_all2 tracks as' ps'"
      and c2: "c' = c1 @ map log_entry rs2"
      and m2: "mset rs2 + all_caught (as[i := a]) (ps[i := po]) = all_caught as' ps'"
      by blast
    have "all_caught (as[i := a]) (ps[i := po]) + caught (as ! i, ps ! i)
        = (all_caught as ps + mset rs1) + caught (as ! i, ps ! i)"
      unfolding all_caught_update [OF True len, of a po] m1 [symmetric]
      by (simp only: ac_simps)
    then have "all_caught (as[i := a]) (ps[i := po]) = all_caught as ps + mset rs1"
      by (simp only: add_right_cancel)
    with m2 have "mset (rs1 @ rs2) + all_caught as ps = all_caught as' ps'"
      by (simp add: ac_simps)
    moreover have "c' = c @ map log_entry (rs1 @ rs2)" by (simp add: c1 c2)
    ultimately show ?thesis using w t by blast
  qed
qed

lemma drain_tracks:
  assumes ca: "call_all store b cbs sched w = (invs, ps, w2)"
    and dr: "drain store b cbs sched (c, w) = (as, (c', w'))"
  shows "w' = w2 \<and> length invs = length cbs \<and> length as = length cbs \<and>
         list_all2 tracks as ps \<and>
         (\<exists>rs. c' = c @ map log_entry (thrown invs) @ map log_entry rs \<and>
               mset rs = all_caught as ps)"
proof -
  obtain w1 where i: "map_state (\<lambda>cb. cb store b) cbs w = (invs, w1)"
    and adv: "advance sched (map promise_returned invs) w1 = (ps, w2)"
    using ca by (auto simp: call_all_def split: prod.splits)
  from dr have ev: "event_loop sched (map started_as (map promise_returned invs))
      (c @ map log_entry (thrown invs), w1) = (as, (c', w'))"
    by (simp add: drain_def start_all i)
  have tr0: "list_all2 tracks (map started_as (map promise_returned invs))
      (map promise_returned invs)"
    by (simp add: list_all2_map1 list_all2_map2 list_all2_same tracks_started)
  from event_loop_tracks [OF ev adv tr0] obtain rs where
    w: "w' = w2" and t: "list_all2 tracks as ps"
    and c: "c' = (c @ map log_entry (thrown invs)) @ map log_entry rs"
    and m: "mset rs + all_caught (map started_as (map promise_returned invs))
              (map promise_returned invs) = all_caught as ps"
    by blast
  from m all_caught_started [of "map promise_returned invs"]
  have m': "mset rs = all_caught as ps" by simp
  have l1: "length invs = length cbs" by (rule map_state_length [OF i])
  from t have "length as = length ps" by (rule list_all2_lengthD)
  moreover have "length ps = length invs"
  proof -
    have "\<And>ps w. advance sched ps w = (ps', w') \<Longrightarrow> length ps' = length ps" for ps' w'
      by (induction sched) (auto split: if_splits option.splits js_promise.splits)
    from this [OF adv] show ?thesis by simp
  qed
  ultimately have l2: "length as = length cbs" using l1 by simp
  from w l1 l2 t c m' show ?thesis by auto
qed

lemma Promise_all_awaited:
  "Promise_all (map promise_of as) = (if list_all (\<lambda>a. a = Done) as then Fulfilled else Pending)"
proof (induction as)
  case Nil
  then show ?case by simp
next
  case (Cons a as)
  then show ?case by (cases a) (auto simp: promise_of_def)
qed

lemma runCallbacksImpl_drain:
  "drain store b cbs sched st = (as, st1) \<Longrightarrow>
   runCallbacksImpl store b cbs sched st =
     (if list_all (\<lambda>a. a = Done) as then Fulfilled else Pending, st1)"
  by (simp add: runCallbacksImpl_def Promise_all_awaited)

lemma runCallbacksImpl_not_rejected:
  "fst (runCallbacksImpl store b cbs sched st) \<noteq> Rejected err"
  by (cases "drain store b cbs sched st") (simp add: runCallbacksImpl_drain)

lemma runCallbacks_nonempty:
  "afterCallbacks this \<noteq> [] \<Longrightarrow>
   runCallbacks this (Some rs) sched (c, w) =
     (case wrapRequestStoreForAfterCallbacks rs (heap w) of
        (store, h) \<Rightarrow>
          runCallbacksImpl store (cacheScope this) (afterCallbacks this) sched
            (c, w\<lparr>heap := h\<rparr>))"
  by (cases "cacheScope this")
    (simp_all add: runCallbacks_def cacheScope_run_def Let_def split: prod.splits)

lemma runCallbacks_empty:
  "afterCallbacks this = [] \<Longrightarrow> runCallbacks this store sched st = (Fulfilled, st)"
  by (simp add: runCallbacks_def)

lemma runCallbacks_not_rejected:
  "fst (runCallbacks this (Some rs) sched (c, w)) \<noteq> Rejected err"
proof (cases "afterCallbacks this = []")
  case True
  then show ?thesis by (simp add: runCallbacks_empty)
next
  case False
  then show ?thesis
    by (simp add: runCallbacks_nonempty runCallbacksImpl_not_rejected split: prod.splits)
qed

subsection \<open>Every drain can be driven to rest\<close>

lemma event_loop_length:
  "event_loop sched as st = (as', st') \<Longrightarrow> length as' = length as"
  by (induction sched arbitrary: as st) (auto split: if_splits prod.splits)

lemma event_loop_append:
  "event_loop (s1 @ s2) as st =
     (case event_loop s1 as st of (as1, st1) \<Rightarrow> event_loop s2 as1 st1)"
  by (induction s1 arbitrary: as st) (auto split: prod.splits)

lemma settle_one:
  "i < length as \<Longrightarrow> as ! i = Awaiting p \<Longrightarrow>
   \<exists>n as' st'. event_loop (replicate n i) as st = (as', st') \<and> at_rest (as' ! i) \<and>
      length as' = length as \<and> (\<forall>j. j \<noteq> i \<longrightarrow> as' ! j = as ! j)"
proof (induction p arbitrary: as st)
  case (Settles s)
  obtain c w where st: "st = (c, w)" by (cases st)
  show ?case
  proof (cases s)
    case NeverSettles
    with Settles show ?thesis
      by (intro exI [of _ 0]) (simp add: at_rest_def)
  next
    case Fulfills
    with Settles show ?thesis
      by (intro exI [of _ "Suc 0"]) (simp add: st at_rest_def resume_callback_def)
  next
    case (Rejects err)
    with Settles show ?thesis
      by (intro exI [of _ "Suc 0"]) (simp add: st at_rest_def resume_callback_def)
  qed
next
  case (Later eff nxt)
  obtain c w where st: "st = (c, w)" by (cases st)
  let ?as = "as[i := Awaiting (nxt w)]"
  have i: "i < length ?as" and a: "?as ! i = Awaiting (nxt w)"
    using Later.prems by simp_all
  have "nxt w \<in> range nxt" by simp
  from Later.IH [OF this i a, of "(c, eff w)"] obtain n as' st' where
    ev: "event_loop (replicate n i) ?as (c, eff w) = (as', st')"
    and r: "at_rest (as' ! i)" and l: "length as' = length ?as"
    and o: "\<forall>j. j \<noteq> i \<longrightarrow> as' ! j = ?as ! j"
    by blast
  have "event_loop (replicate (Suc n) i) as st = (as', st')"
    using Later.prems ev by (simp add: st resume_callback_def)
  moreover have "\<forall>j. j \<noteq> i \<longrightarrow> as' ! j = as ! j" using o by simp
  ultimately show ?case using r l by (intro exI [of _ "Suc n"]) auto
qed

lemma settle_upto:
  "k \<le> length as \<Longrightarrow>
   \<exists>extra as' st'. event_loop extra as st = (as', st') \<and> length as' = length as \<and>
      (\<forall>j < k. at_rest (as' ! j)) \<and> (\<forall>j. k \<le> j \<longrightarrow> as' ! j = as ! j)"
proof (induction k)
  case 0
  show ?case by (intro exI [of _ "[]"] exI [of _ as] exI [of _ st]) simp
next
  case (Suc k)
  then have "k \<le> length as" and k: "k < length as" by simp_all
  from Suc.IH [OF this(1)] obtain m1 as1 st1 where
    e1: "event_loop m1 as st = (as1, st1)" and l1: "length as1 = length as"
    and r1: "\<forall>j < k. at_rest (as1 ! j)" and o1: "\<forall>j. k \<le> j \<longrightarrow> as1 ! j = as ! j"
    by blast
  have "\<exists>m2 as2 st2. event_loop m2 as1 st1 = (as2, st2) \<and> at_rest (as2 ! k) \<and>
      length as2 = length as1 \<and> (\<forall>j. j \<noteq> k \<longrightarrow> as2 ! j = as1 ! j)"
  proof (cases "as1 ! k")
    case Done
    then show ?thesis
      by (intro exI [of _ "[]"] exI [of _ as1] exI [of _ st1]) (simp add: at_rest_def)
  next
    case (Awaiting p)
    from k l1 have "k < length as1" by simp
    from settle_one [OF this Awaiting] show ?thesis by blast
  qed
  then obtain m2 as2 st2 where
    e2: "event_loop m2 as1 st1 = (as2, st2)" and r2: "at_rest (as2 ! k)"
    and l2: "length as2 = length as1" and o2: "\<forall>j. j \<noteq> k \<longrightarrow> as2 ! j = as1 ! j"
    by blast
  have "event_loop (m1 @ m2) as st = (as2, st2)" by (simp add: event_loop_append e1 e2)
  moreover have "\<forall>j < Suc k. at_rest (as2 ! j)"
    using r1 r2 o2 by (auto simp: less_Suc_eq)
  moreover have "\<forall>j. Suc k \<le> j \<longrightarrow> as2 ! j = as ! j" using o1 o2 by auto
  ultimately show ?case using l1 l2 by (intro exI [of _ "m1 @ m2"]) auto
qed

lemma drain_append:
  "drain store b cbs (sched @ extra) st =
     (case drain store b cbs sched st of (as, st1) \<Rightarrow> event_loop extra as st1)"
  by (simp add: drain_def event_loop_append split: prod.splits)

lemma drain_can_rest:
  "\<exists>extra. list_all at_rest (fst (drain store b cbs (sched @ extra) st))"
proof -
  obtain as st1 where d: "drain store b cbs sched st = (as, st1)"
    by (cases "drain store b cbs sched st")
  from settle_upto [of "length as" as st1] obtain extra as' st' where
    e: "event_loop extra as st1 = (as', st')" and l: "length as' = length as"
    and r: "\<forall>j < length as. at_rest (as' ! j)"
    by auto
  from l r have "list_all at_rest as'" by (simp add: list_all_length)
  then show ?thesis
    by (intro exI [of _ extra]) (simp add: drain_append d e)
qed

text \<open>
  C4. A drain pass over any queue, with the request store set, under any schedule of the
  event loop. The promise of \<open>runCallbacks\<close> is never rejected. When the queue is not
  empty: every callback of the queue is called, in queue order, whatever the earlier ones
  did; the world after the pass is the one that the same callbacks and the same schedule
  give with no error handling at all (\<open>call_all\<close>), so no step of a callback's work is
  skipped, added or held up because another callback failed; each async function still
  awaits its callback's promise or has returned; the console has gained one entry for each
  synchronous throw, in queue order, and then one entry for each rejection that an async
  function has been resumed with, and nothing else; the promise of the pass is fulfilled
  when all async functions have returned and pending until then; and whatever turns have
  been taken, further turns bring every async function to rest: it has returned, or it
  awaits a promise that never settles.
\<close>

theorem runCallbacks_isolates_failures:
  fixes this :: "('u, 'x) AfterContextImpl"
    and store :: "'x AfterContextGuard RequestStore"
  assumes wr: "wrapRequestStoreForAfterCallbacks rs (heap w) = (store, h)"
    and ca: "call_all store (cacheScope this) (afterCallbacks this) sched (w\<lparr>heap := h\<rparr>)
               = (invs, ps, w2)"
    and dr: "drain store (cacheScope this) (afterCallbacks this) sched (c, w\<lparr>heap := h\<rparr>)
               = (as, (c', w'))"
  shows "(\<forall>err. fst (runCallbacks this (Some rs) sched (c, w)) \<noteq> Rejected err) \<and>
         (afterCallbacks this \<noteq> [] \<longrightarrow>
            runCallbacks this (Some rs) sched (c, w) =
              (if list_all (\<lambda>a. a = Done) as then Fulfilled else Pending, (c', w')) \<and>
            w' = w2 \<and>
            length invs = length (afterCallbacks this) \<and>
            list_all2 tracks as ps \<and>
            (\<exists>es. c' = c @ map log_entry (thrown invs) @ map log_entry es \<and>
                  mset es = all_caught as ps) \<and>
            (\<exists>extra. list_all at_rest
               (fst (drain store (cacheScope this) (afterCallbacks this) (sched @ extra)
                       (c, w\<lparr>heap := h\<rparr>)))))"
proof (intro conjI allI impI)
  fix err
  show "fst (runCallbacks this (Some rs) sched (c, w)) \<noteq> Rejected err"
    by (rule runCallbacks_not_rejected)
next
  assume ne: "afterCallbacks this \<noteq> []"
  show "runCallbacks this (Some rs) sched (c, w) =
      (if list_all (\<lambda>a. a = Done) as then Fulfilled else Pending, (c', w'))"
    by (simp add: runCallbacks_nonempty [OF ne] wr runCallbacksImpl_drain [OF dr])
next
  from drain_tracks [OF ca dr] show "w' = w2" by blast
next
  from drain_tracks [OF ca dr] show "length invs = length (afterCallbacks this)" by blast
next
  from drain_tracks [OF ca dr] show "list_all2 tracks as ps" by blast
next
  from drain_tracks [OF ca dr]
  show "\<exists>es. c' = c @ map log_entry (thrown invs) @ map log_entry es \<and>
      mset es = all_caught as ps"
    by blast
next
  show "\<exists>extra. list_all at_rest
      (fst (drain store (cacheScope this) (afterCallbacks this) (sched @ extra)
              (c, w\<lparr>heap := h\<rparr>)))"
    by (rule drain_can_rest)
qed

lemma example_pass:
  "runCallbacks example_context (Some example_store) [3, 2, 2, 0] ([], example_world) =
     (Fulfilled,
      ([log_entry (Error ''boom''), log_entry (Error ''late'')],
       \<lparr>heap = example_heap @ [HeadersObj [], ResponseCookiesObj 6 []],
        user = [''first'', ''last'', ''third'']\<rparr>))"
  by (simp add: runCallbacks_def createAfterContext_def example_queue_def example_context_def
      wrapRequestStoreForAfterCallbacks_def new_Headers_def new_ResponseCookies_def
      runCallbacksImpl_def drain_def start_callback_def resume_callback_def promise_of_def
      note_cb_def throwing_cb_def rejecting_cb_def console_error_def example_world_def
      example_heap_def example_store_def log_entry_def)

lemma late_pass:
  "runCallbacks late_context (Some example_store) [1, 1, 0, 0] ([], example_world) =
     (Fulfilled,
      ([log_entry (Error ''late2''), log_entry (Error ''late1'')],
       \<lparr>heap = example_heap @ [HeadersObj [], ResponseCookiesObj 6 []],
        user = [''y'', ''x'']\<rparr>))"
  by (simp add: runCallbacks_def createAfterContext_def late_queue_def late_context_def
      wrapRequestStoreForAfterCallbacks_def new_Headers_def new_ResponseCookies_def
      runCallbacksImpl_def drain_def start_callback_def resume_callback_def promise_of_def
      rejecting_cb_def console_error_def example_world_def
      example_heap_def example_store_def log_entry_def)

theorem runCallbacks_isolates_failures_witness:
  "afterCallbacks example_context \<noteq> [] \<and>
   runCallbacks example_context (Some example_store) [3, 2, 2, 0] ([], example_world) =
     (Fulfilled,
      ([log_entry (Error ''boom''), log_entry (Error ''late'')],
       \<lparr>heap = example_heap @ [HeadersObj [], ResponseCookiesObj 6 []],
        user = [''first'', ''last'', ''third'']\<rparr>)) \<and>
   afterCallbacks late_context \<noteq> [] \<and>
   runCallbacks late_context (Some example_store) [1, 1, 0, 0] ([], example_world) =
     (Fulfilled,
      ([log_entry (Error ''late2''), log_entry (Error ''late1'')],
       \<lparr>heap = example_heap @ [HeadersObj [], ResponseCookiesObj 6 []],
        user = [''y'', ''x'']\<rparr>))"
proof -
  let ?W = "wrapRequestStoreForAfterCallbacks example_store (heap example_world)
              :: nat AfterContextGuard RequestStore \<times> js_heap"
  let ?C = "\<lambda>this sched. call_all (fst ?W) (cacheScope this) (afterCallbacks this) sched
              (example_world\<lparr>heap := snd ?W\<rparr>)"
  let ?D = "\<lambda>this sched. drain (fst ?W) (cacheScope this) (afterCallbacks this) sched
              ([], example_world\<lparr>heap := snd ?W\<rparr>)"
  have wr: "?W = (fst ?W, snd ?W)" by simp
  have ca: "?C this sched = (fst (?C this sched), fst (snd (?C this sched)),
      snd (snd (?C this sched)))" for this sched by simp
  have dr: "?D this sched = (fst (?D this sched), fst (snd (?D this sched)),
      snd (snd (?D this sched)))" for this sched by simp
  have n1: "afterCallbacks example_context \<noteq> []"
    by (simp add: example_context_def example_queue_def)
  have n2: "afterCallbacks late_context \<noteq> []"
    by (simp add: late_context_def late_queue_def)
  have g: ?thesis by (intro conjI n1 n2 example_pass late_pass)
  from runCallbacks_isolates_failures [OF wr ca dr, of example_context "[3, 2, 2, 0]"]
    runCallbacks_isolates_failures [OF wr ca dr, of late_context "[1, 1, 0, 0]"]
  show ?thesis by - (rule g)
qed

section \<open>Scheduling an awaitable\<close>

text \<open>
  C5 (amended). For every genuine promise \<open>p\<close> passed to \<open>after\<close>: a handler is
  attached to its rejection, so that a rejection of \<open>p\<close> raises no unhandled-rejection
  condition; the queue of callbacks, the close listeners and the world are left as they
  were; when \<open>waitUntil\<close> is defined the call returns and \<open>waitUntil\<close> has been
  called exactly once more, with \<open>p\<close>; when it is not, the call throws the error that
  names \<open>waitUntil\<close> and \<open>waitUntil\<close> has not been called.
\<close>

theorem after_promise:
  "after (JsPromise p) sys = (r, sys') \<Longrightarrow>
     \<not> unhandled_rejection sys' p \<and>
     rejectionHandled sys' = insert p (rejectionHandled sys) \<and>
     afterCallbacks (ctx sys') = afterCallbacks (ctx sys) \<and>
     ctx sys' = ctx sys \<and>
     closeListeners sys' = closeListeners sys \<and>
     world sys' = world sys \<and>
     (if waitUntil (ctx sys)
      then r = Inr () \<and> waitUntilCalls sys' = waitUntilCalls sys @ [WaitTask p]
      else r = Inl errorWaitUntilNotAvailable \<and> waitUntilCalls sys' = waitUntilCalls sys \<and>
           sublist ''waitUntil'' (err_message errorWaitUntilNotAvailable))"
  using errorWaitUntil_names
  by (auto simp: after_def isPromise_def task_catch_def call_waitUntil_def
      unhandled_rejection_def split: if_splits)

theorem after_promise_witness:
  "fst (after (JsPromise 7) (example_system True True)) = Inr () \<and>
   waitUntilCalls (snd (after (JsPromise 7) (example_system True True))) = [WaitTask 7] \<and>
   afterCallbacks (ctx (snd (after (JsPromise 7) (example_system True True)))) = [] \<and>
   \<not> unhandled_rejection (snd (after (JsPromise 7) (example_system True True))) 7 \<and>
   fst (after (JsPromise 7) (example_system False True)) = Inl errorWaitUntilNotAvailable"
  using after_promise [of 7 "example_system True True"
      "fst (after (JsPromise 7) (example_system True True))"
      "snd (after (JsPromise 7) (example_system True True))"]
    after_promise [of 7 "example_system False True"
      "fst (after (JsPromise 7) (example_system False True))"
      "snd (after (JsPromise 7) (example_system False True))"]
  by (simp add: example_system_def initial_system_def createAfterContext_def)

text \<open>
  Counterexample to C5 as the specification states it, for every task that the probe
  takes for an awaitable: an object with a callable \<open>then\<close> and no \<open>catch\<close> passes
  \<open>isPromise\<close>, and with \<open>waitUntil\<close> defined \<open>after\<close> throws a \<open>TypeError\<close> at
  \<open>task.catch\<close>; \<open>waitUntil\<close> is not called and no handler is attached.
\<close>

theorem after_thenable_counterexample:
  "isPromise (JsObject (ThenOfType TyFunction) :: (string list, nat) AfterCallback js_value) \<and>
   waitUntil (ctx (example_system True True)) \<and>
   after (JsObject (ThenOfType TyFunction)) (example_system True True)
     = (Inl (TypeError ''task.catch is not a function''), example_system True True) \<and>
   waitUntilCalls (example_system True True) = [] \<and>
   rejectionHandled (example_system True True) = {}"
  by (simp add: after_def isPromise_def task_catch_def example_system_def initial_system_def
      createAfterContext_def)

section \<open>Scheduling a function\<close>

lemma tracer_eta: "(\<lambda>store inScope w. tracer_trace (\<lambda>_. f store inScope w)) = f"
  by (simp add: tracer_trace_def)

lemma after_function: "after (JsFunction t f) sys = addCallback f sys"
  by (simp add: after_def isPromise_def tracer_eta)

lemma addCallback_first:
  "afterCallbacks (ctx sys) = [] \<Longrightarrow> waitUntil (ctx sys) \<Longrightarrow> onClose (ctx sys) \<Longrightarrow>
   requestStore (ctx sys) = Some rs \<Longrightarrow>
   addCallback f sys =
     (Inr (), sys\<lparr>ctx := (ctx sys)\<lparr>afterCallbacks := [f]\<rparr>,
                   waitUntilCalls := waitUntilCalls sys @ [WaitDrainJob],
                   closeListeners := Suc (closeListeners sys)\<rparr>)"
  by (simp add: addCallback_def push_callback_def call_waitUntil_def
      runCallbacksOnClose_start_def)

lemma addCallback_more:
  "afterCallbacks (ctx sys) \<noteq> [] \<Longrightarrow> addCallback f sys = (Inr (), push_callback f sys)"
  by (simp add: addCallback_def)

text \<open>
  C10 (amended). On the awaitable path the handler is attached before \<open>waitUntil\<close> is
  tested: for every genuine promise \<open>p\<close> and every state, after \<open>after\<close> a rejection of
  \<open>p\<close> raises no unhandled-rejection condition, and this holds in particular when
  \<open>waitUntil\<close> is not defined and \<open>after\<close> throws the error about \<open>waitUntil\<close>: the
  state it leaves behind is the old one with the handler attached.
\<close>

theorem after_promise_handled_before_check:
  "\<not> unhandled_rejection (snd (after (JsPromise p) sys)) p \<and>
   (\<not> waitUntil (ctx sys) \<longrightarrow>
      after (JsPromise p) sys =
        (Inl errorWaitUntilNotAvailable,
         sys\<lparr>rejectionHandled := insert p (rejectionHandled sys)\<rparr>))"
  by (simp add: after_def isPromise_def task_catch_def call_waitUntil_def
      unhandled_rejection_def)

theorem after_promise_handled_before_check_witness:
  "\<not> waitUntil (ctx (example_system False True)) \<and>
   unhandled_rejection (example_system False True) 3 \<and>
   fst (after (JsPromise 3) (example_system False True)) = Inl errorWaitUntilNotAvailable \<and>
   \<not> unhandled_rejection (snd (after (JsPromise 3) (example_system False True))) 3"
  using after_promise_handled_before_check [of 3 "example_system False True"]
  by (simp add: example_system_def initial_system_def createAfterContext_def
      unhandled_rejection_def)

text \<open>
  Counterexample to C10 as the specification states it, for every task that the probe
  takes for an awaitable: for an object with a callable \<open>then\<close> and no \<open>catch\<close>, with
  \<open>waitUntil\<close> not defined, \<open>after\<close> throws at \<open>task.catch\<close>, before the test of
  \<open>waitUntil\<close>: the error is a \<open>TypeError\<close>, not the one about \<open>waitUntil\<close>, and no
  handler has been attached to anything.
\<close>

theorem after_thenable_no_handler_counterexample:
  "isPromise (JsObject (ThenOfType TyFunction) :: (string list, nat) AfterCallback js_value) \<and>
   \<not> waitUntil (ctx (example_system False True)) \<and>
   fst (after (JsObject (ThenOfType TyFunction)) (example_system False True))
     = Inl (TypeError ''task.catch is not a function'') \<and>
   fst (after (JsObject (ThenOfType TyFunction)) (example_system False True))
     \<noteq> Inl errorWaitUntilNotAvailable \<and>
   rejectionHandled (snd (after (JsObject (ThenOfType TyFunction)) (example_system False True)))
     = {}"
  by (simp add: after_def isPromise_def task_catch_def example_system_def initial_system_def
      createAfterContext_def errorWaitUntilNotAvailable_def TypeError_def Error_def)

section \<open>Classification of the argument\<close>

text \<open>
  C9. A function that also carries a callable \<open>then\<close> is not a promise for
  \<open>isPromise\<close>: \<open>after\<close> hands it to \<open>addCallback\<close>, \<open>waitUntil\<close> is not called with
  a task, and where \<open>addCallback\<close> does not throw the function is appended to the queue.
  \<open>null\<close> has type \<open>object\<close>, is not a promise for \<open>isPromise\<close>, and \<open>after\<close>
  throws the error "must receive a promise or a function", leaving the state unchanged.
\<close>

theorem after_classification_edge_cases:
  fixes sys :: "('u, 'x) system"
  shows
  "\<not> isPromise (JsFunction (ThenOfType TyFunction) f) \<and>
   after (JsFunction (ThenOfType TyFunction) f) sys = addCallback f sys \<and>
   filter (\<lambda>x. x \<noteq> WaitDrainJob)
      (waitUntilCalls (snd (after (JsFunction (ThenOfType TyFunction) f) sys)))
     = filter (\<lambda>x. x \<noteq> WaitDrainJob) (waitUntilCalls sys) \<and>
   (afterCallbacks (ctx sys) \<noteq> [] \<or>
      waitUntil (ctx sys) \<and> requestStore (ctx sys) \<noteq> None \<and> onClose (ctx sys) \<longrightarrow>
      fst (after (JsFunction (ThenOfType TyFunction) f) sys) = Inr () \<and>
      afterCallbacks (ctx (snd (after (JsFunction (ThenOfType TyFunction) f) sys)))
        = afterCallbacks (ctx sys) @ [f]) \<and>
   typeof_js (JsNull :: ('u, 'x) AfterCallback js_value) = TyObject \<and>
   \<not> isPromise (JsNull :: ('u, 'x) AfterCallback js_value) \<and>
   after JsNull sys = (Inl errorNotPromiseOrFunction, sys)"
  by (auto simp: after_def isPromise_def tracer_eta addCallback_def push_callback_def
      call_waitUntil_def runCallbacksOnClose_start_def)

theorem after_classification_edge_cases_witness:
  "fst (after (JsFunction (ThenOfType TyFunction) (note_cb ''n''))
          (initial_system example_context example_world)) = Inr () \<and>
   afterCallbacks (ctx (snd (after (JsFunction (ThenOfType TyFunction) (note_cb ''n''))
          (initial_system example_context example_world)))) = example_queue @ [note_cb ''n''] \<and>
   waitUntilCalls (snd (after (JsFunction (ThenOfType TyFunction) (note_cb ''n''))
          (initial_system example_context example_world))) = [] \<and>
   fst (after JsNull (initial_system example_context example_world))
     = Inl errorNotPromiseOrFunction"
  using after_classification_edge_cases [of "note_cb ''n''"
      "initial_system example_context example_world"]
  by (simp add: initial_system_def example_context_def example_queue_def
      createAfterContext_def addCallback_def push_callback_def)

section \<open>Scheduling the first callback without a capability\<close>

text \<open>
  C2 (amended). When a function is scheduled while the queue is empty, and
  \<open>waitUntil\<close> is not defined, or \<open>waitUntil\<close> is defined, the request store has been
  set and \<open>onClose\<close> is not defined, \<open>after\<close> throws at once: the error names
  \<open>waitUntil\<close> (and not \<open>onClose\<close>) when \<open>waitUntil\<close> is missing, whether or not
  \<open>onClose\<close> is there, and names \<open>onClose\<close> otherwise. The state is unchanged: no drain
  job has been handed to \<open>waitUntil\<close>, nothing has been registered with \<open>onClose\<close>,
  and the callback has not been put in the queue.
\<close>

theorem after_function_missing_capability:
  "afterCallbacks (ctx sys) = [] \<Longrightarrow>
   \<not> waitUntil (ctx sys) \<or> (requestStore (ctx sys) \<noteq> None \<and> \<not> onClose (ctx sys)) \<Longrightarrow>
   after (JsFunction t f) sys =
     (Inl (if \<not> waitUntil (ctx sys) then errorWaitUntilNotAvailable
           else errorOnCloseNotImplemented), sys) \<and>
   sublist ''waitUntil'' (err_message errorWaitUntilNotAvailable) \<and>
   \<not> sublist ''onClose'' (err_message errorWaitUntilNotAvailable) \<and>
   sublist ''onClose'' (err_message errorOnCloseNotImplemented) \<and>
   \<not> sublist ''waitUntil'' (err_message errorOnCloseNotImplemented)"
  using errorWaitUntil_names errorOnClose_names
  by (auto simp: after_function addCallback_def)

theorem after_function_missing_capability_witness:
  "after (JsFunction ThenAbsent (note_cb ''n'')) (example_system False False)
     = (Inl errorWaitUntilNotAvailable, example_system False False) \<and>
   after (JsFunction ThenAbsent (note_cb ''n''))
       (snd (run example_store (\<lambda>b s. (Inr (0::nat), s)) (example_system True False)))
     = (Inl errorOnCloseNotImplemented,
        snd (run example_store (\<lambda>b s. (Inr (0::nat), s)) (example_system True False)))"
  using after_function_missing_capability [of "example_system False False" ThenAbsent "note_cb ''n''"]
    after_function_missing_capability
      [of "snd (run example_store (\<lambda>b s. (Inr (0::nat), s)) (example_system True False))"
        ThenAbsent "note_cb ''n''"]
  by (simp add: example_system_def initial_system_def createAfterContext_def run_def)

text \<open>
  Counterexample to C2 as the specification states it: after the throw the queue is
  still empty, so the callback
  has not been queued; and with \<open>waitUntil\<close> defined, \<open>onClose\<close> missing and no request
  store set yet, the error is the one about the request store, which names neither
  capability.
\<close>

theorem after_function_missing_capability_counterexample:
  "fst (after (JsFunction ThenAbsent (note_cb ''n'')) (example_system False True))
     = Inl errorWaitUntilNotAvailable \<and>
   afterCallbacks (ctx (snd (after (JsFunction ThenAbsent (note_cb ''n''))
      (example_system False True)))) = [] \<and>
   fst (after (JsFunction ThenAbsent (note_cb ''n'')) (example_system True False))
     = Inl errorRequestStoreNotInitialized"
  by (simp add: after_function addCallback_def example_system_def initial_system_def
      createAfterContext_def)

section \<open>The wrapped request store\<close>

lemma wrap_result:
  "wrapRequestStoreForAfterCallbacks rs h =
     (\<lparr>headers = headers rs, cookies = cookies rs, draftMode = draftMode rs,
       mutableCookies = Suc (length h), assetPrefix = assetPrefix rs,
       reactLoadableManifest = reactLoadableManifest rs,
       afterContext =
         \<lparr>guard_after = (\<lambda>args. Inl errorNestedAfter),
          guard_run = (\<lambda>args. Inl errorNestedRun)\<rparr>\<rparr>,
      h @ [HeadersObj [], ResponseCookiesObj (length h) []])"
  by (simp add: wrapRequestStoreForAfterCallbacks_def new_Headers_def new_ResponseCookies_def)






lemma ResponseCookies_set_fresh:
  "ResponseCookies_set (Suc (length h0)) k v
     (h0 @ [HeadersObj es, ResponseCookiesObj (length h0) jar]) =
   h0 @ [HeadersObj (filter (\<lambda>(k', _). k' \<noteq> ''set-cookie'') es
                      @ set_cookie_entries (filter (\<lambda>(k', _). k' \<noteq> k) jar @ [(k, v)])),
         ResponseCookiesObj (length h0) (filter (\<lambda>(k', _). k' \<noteq> k) jar @ [(k, v)])]"
  by (simp add: ResponseCookies_set_def Let_def nth_append list_update_append)

lemma cookie_writes_fresh:
  "ws \<noteq> [] \<Longrightarrow>
   \<exists>es' jar'.
     fold (\<lambda>(k, v). ResponseCookies_set (Suc (length h0)) k v) ws
       (h0 @ [HeadersObj es, ResponseCookiesObj (length h0) jar]) =
     h0 @ [HeadersObj es', ResponseCookiesObj (length h0) jar'] \<and> last ws \<in> set jar'"
proof (induction ws arbitrary: es jar)
  case Nil
  then show ?case by simp
next
  case (Cons x ws)
  obtain k v where x: "x = (k, v)" by (cases x)
  show ?case
  proof (cases "ws = []")
    case True
    then show ?thesis by (simp add: x ResponseCookies_set_fresh)
  next
    case False
    from Cons.IH [OF False] show ?thesis
      by (simp add: x ResponseCookies_set_fresh False)
  qed
qed

lemma map_state_cookie_cbs:
  "map_state (\<lambda>cb. cb store b) (map (\<lambda>(k, v). cookie_cb k v) ws) w =
     (replicate (length ws) Returned,
      w\<lparr>heap := fold (\<lambda>(k, v). ResponseCookies_set (mutableCookies store) k v) ws (heap w)\<rparr>)"
proof (induction ws arbitrary: w)
  case Nil
  then show ?case by simp
next
  case (Cons x ws)
  obtain k v where x: "x = (k, v)" by (cases x)
  have step: "cookie_cb k v store b w =
      (Returned, w\<lparr>heap := ResponseCookies_set (mutableCookies store) k v (heap w)\<rparr>)"
    by (simp add: cookie_cb_def)
  show ?case by (simp add: x Cons step)
qed

lemma event_loop_quiet:
  "list_all quiet as \<Longrightarrow>
   \<exists>as'. event_loop sched as st = (as', st) \<and> length as' = length as \<and> list_all quiet as' \<and>
      (\<forall>i < length as. (as' ! i = Done) = (as ! i = Done \<or> i \<in> set sched))"
proof (induction sched arbitrary: as)
  case Nil
  then show ?case by simp
next
  case (Cons j sched)
  obtain c w where st: "st = (c, w)" by (cases st)
  show ?case
  proof (cases "j < length as")
    case False
    from Cons.IH [OF Cons.prems] obtain as' where
      "event_loop sched as st = (as', st)" "length as' = length as" "list_all quiet as'"
      "\<forall>i < length as. (as' ! i = Done) = (as ! i = Done \<or> i \<in> set sched)"
      by blast
    with False show ?thesis by (intro exI [of _ as']) auto
  next
    case True
    with Cons.prems have qj: "quiet (as ! j)" by (simp add: list_all_length)
    then have rc: "resume_callback (as ! j) (c, w) = (Done, (c, w))"
      by (auto simp: quiet_def resume_callback_def)
    have q1: "list_all quiet (as[j := Done])"
      using Cons.prems True by (auto simp: list_all_length nth_list_update quiet_def)
    from Cons.IH [OF q1] obtain as' where
      e: "event_loop sched (as[j := Done]) st = (as', st)"
      and l: "length as' = length (as[j := Done])" and q: "list_all quiet as'"
      and d: "\<forall>i < length (as[j := Done]).
               (as' ! i = Done) = (as[j := Done] ! i = Done \<or> i \<in> set sched)"
      by blast
    have "event_loop (j # sched) as st = (as', st)"
      using True rc e by (simp add: st)
    moreover have "\<forall>i < length as. (as' ! i = Done) = (as ! i = Done \<or> i \<in> set (j # sched))"
      using d True by (auto simp: nth_list_update)
    ultimately show ?thesis using l q by (intro exI [of _ as']) auto
  qed
qed

lemma thrown_returned: "thrown (replicate n Returned) = []"
  by (induction n) simp_all

lemma cookie_pass:
  "runCallbacksImpl store b (map (\<lambda>(k, v). cookie_cb k v) ws) sched (c, w) =
     (if {..<length ws} \<subseteq> set sched then Fulfilled else Pending,
      (c, w\<lparr>heap := fold (\<lambda>(k, v). ResponseCookies_set (mutableCookies store) k v) ws (heap w)\<rparr>))"
proof -
  let ?w = "w\<lparr>heap := fold (\<lambda>(k, v). ResponseCookies_set (mutableCookies store) k v) ws (heap w)\<rparr>"
  let ?as = "replicate (length ws) (Awaiting (Settles Fulfills)) :: 'a world awaited list"
  have st: "map_state (start_callback store b) (map (\<lambda>(k, v). cookie_cb k v) ws) (c, w)
      = (?as, (c, ?w))"
    by (simp add: start_all map_state_cookie_cbs promise_returned_def started_as_def
        thrown_returned)
  have "list_all quiet ?as" by (simp add: list_all_length quiet_def)
  from event_loop_quiet [OF this, of sched "(c, ?w)"] obtain as' where
    e: "event_loop sched ?as (c, ?w) = (as', (c, ?w))" and l: "length as' = length ws"
    and d: "\<forall>i < length ws. (as' ! i = Done) = (i \<in> set sched)"
    by auto
  have "list_all (\<lambda>a. a = Done) as' = ({..<length ws} \<subseteq> set sched)"
    using l d by (auto simp: list_all_length)
  moreover have "drain store b (map (\<lambda>(k, v). cookie_cb k v) ws) sched (c, w) = (as', (c, ?w))"
    by (simp add: drain_def st e)
  ultimately show ?thesis by (simp add: runCallbacksImpl_drain)
qed

text \<open>
  C7. The store returned by \<open>wrapRequestStoreForAfterCallbacks\<close> holds the same
  \<open>headers\<close>, \<open>cookies\<close>, \<open>draftMode\<close>, \<open>assetPrefix\<close> and
  \<open>reactLoadableManifest\<close> as the original, and its \<open>mutableCookies\<close> is a new object,
  at an address the store did not have before, bound to a new and empty \<open>Headers\<close>
  object. When the callbacks of a drain pass write cookies through the
  \<open>mutableCookies\<close> of the store they are given, then under every schedule every write
  is accepted (the pass is fulfilled as soon as each async function has had its turn,
  and pending before; nothing is logged; the last write is in the new cookie object),
  and every object that existed before the pass, so everything the original request
  store refers to, is unchanged.
\<close>

theorem wrapped_store_discards_cookie_writes:
  fixes this :: "('u, 'x) AfterContextImpl"
    and store :: "'x AfterContextGuard RequestStore"
  assumes wr: "wrapRequestStoreForAfterCallbacks rs (heap w) = (store, h)"
    and q: "afterCallbacks this = map (\<lambda>(k, v). cookie_cb k v) ws"
    and ne: "ws \<noteq> []"
    and pass: "runCallbacks this (Some rs) sched (c, w) = (p, (c', w'))"
  shows "headers store = headers rs \<and> cookies store = cookies rs \<and>
         draftMode store = draftMode rs \<and> assetPrefix store = assetPrefix rs \<and>
         reactLoadableManifest store = reactLoadableManifest rs \<and>
         mutableCookies store = Suc (length (heap w)) \<and>
         h = heap w @ [HeadersObj [], ResponseCookiesObj (length (heap w)) []] \<and>
         p = (if {..<length ws} \<subseteq> set sched then Fulfilled else Pending) \<and>
         c' = c \<and> user w' = user w \<and>
         take (length (heap w)) (heap w') = heap w \<and>
         (\<exists>es jar. heap w' = heap w @ [HeadersObj es, ResponseCookiesObj (length (heap w)) jar]
            \<and> last ws \<in> set jar)"
proof -
  from wr have s: "mutableCookies store = Suc (length (heap w))"
    and h: "h = heap w @ [HeadersObj [], ResponseCookiesObj (length (heap w)) []]"
    and f: "headers store = headers rs" "cookies store = cookies rs"
      "draftMode store = draftMode rs" "assetPrefix store = assetPrefix rs"
      "reactLoadableManifest store = reactLoadableManifest rs"
    by (auto simp: wrap_result)
  from q ne have n: "afterCallbacks this \<noteq> []" by simp
  from cookie_writes_fresh [OF ne, of "heap w" "[]" "[]"] obtain es jar where
    w: "fold (\<lambda>(k, v). ResponseCookies_set (Suc (length (heap w))) k v) ws
          (heap w @ [HeadersObj [], ResponseCookiesObj (length (heap w)) []]) =
        heap w @ [HeadersObj es, ResponseCookiesObj (length (heap w)) jar]"
    and l: "last ws \<in> set jar"
    by blast
  from pass have "p = (if {..<length ws} \<subseteq> set sched then Fulfilled else Pending) \<and> c' = c \<and>
      w' = w\<lparr>heap := heap w @ [HeadersObj es, ResponseCookiesObj (length (heap w)) jar]\<rparr>"
    by (simp add: runCallbacks_nonempty [OF n] wr q cookie_pass s h w)
  with s h f l show ?thesis by simp
qed

theorem wrapped_store_discards_cookie_writes_witness:
  "fst (runCallbacks cookie_context (Some example_store) [0] ([], example_world)) = Fulfilled \<and>
   heap (snd (snd (runCallbacks cookie_context (Some example_store) [0] ([], example_world))))
     = example_heap @ [HeadersObj [(''set-cookie'', ''session=changed'')],
                       ResponseCookiesObj 6 [(''session'', ''changed'')]] \<and>
   example_heap ! mutableCookies example_store = ResponseCookiesObj 3 [(''session'', ''abc'')] \<and>
   heap (snd (snd (runCallbacks cookie_context (Some example_store) [0] ([], example_world))))
     ! mutableCookies example_store = ResponseCookiesObj 3 [(''session'', ''abc'')]"
proof -
  have q: "afterCallbacks cookie_context
      = map (\<lambda>(k, v). cookie_cb k v) [(''session'', ''changed'')]"
    by (simp add: cookie_context_def)
  have ne: "[(''session'', ''changed'')] \<noteq> []" by simp
  have pass: "runCallbacks cookie_context (Some example_store) [0] ([], example_world) =
      (Fulfilled, ([],
        \<lparr>heap = example_heap @ [HeadersObj [(''set-cookie'', ''session=changed'')],
                                 ResponseCookiesObj 6 [(''session'', ''changed'')]],
         user = []\<rparr>))"
    by (simp add: runCallbacks_def cookie_context_def createAfterContext_def wrap_result
        runCallbacksImpl_def drain_def start_callback_def resume_callback_def promise_of_def
        cookie_cb_def ResponseCookies_set_def set_cookie_entries_def example_world_def
        example_heap_def Let_def)
  from wrapped_store_discards_cookie_writes
    [OF wrap_result [of example_store "heap example_world"] q ne pass]
  show ?thesis
    unfolding pass by (simp add: example_world_def example_heap_def example_store_def)
qed

section \<open>Scheduling functions and the close signal\<close>

lemma after_functions_more:
  "afterCallbacks (ctx sys) \<noteq> [] \<Longrightarrow>
   map_state after (map (\<lambda>(t, f). JsFunction t f) tfs) sys =
     (replicate (length tfs) (Inr ()),
      sys\<lparr>ctx := (ctx sys)\<lparr>afterCallbacks := afterCallbacks (ctx sys) @ map snd tfs\<rparr>\<rparr>)"
proof (induction tfs arbitrary: sys)
  case Nil
  then show ?case by simp
next
  case (Cons x tfs)
  obtain t f where x: "x = (t, f)" by (cases x)
  have ne: "afterCallbacks (ctx (push_callback f sys)) \<noteq> []"
    by (simp add: push_callback_def)
  show ?case
    by (simp add: x after_function addCallback_more [OF Cons.prems] Cons.IH [OF ne])
      (simp add: push_callback_def)
qed

lemma after_functions_first:
  assumes "afterCallbacks (ctx sys) = []" "waitUntil (ctx sys)" "onClose (ctx sys)"
    "requestStore (ctx sys) = Some rs" "tfs \<noteq> []"
  shows "map_state after (map (\<lambda>(t, f). JsFunction t f) tfs) sys =
     (replicate (length tfs) (Inr ()),
      sys\<lparr>ctx := (ctx sys)\<lparr>afterCallbacks := map snd tfs\<rparr>,
          waitUntilCalls := waitUntilCalls sys @ [WaitDrainJob],
          closeListeners := Suc (closeListeners sys)\<rparr>)"
proof -
  from assms(5) obtain t f rest where tfs: "tfs = (t, f) # rest" by (cases tfs) auto
  let ?s = "sys\<lparr>ctx := (ctx sys)\<lparr>afterCallbacks := [f]\<rparr>,
                 waitUntilCalls := waitUntilCalls sys @ [WaitDrainJob],
                 closeListeners := Suc (closeListeners sys)\<rparr>"
  have ne: "afterCallbacks (ctx ?s) \<noteq> []" by simp
  show ?thesis
    by (simp add: tfs after_function addCallback_first [OF assms(1-4)]
        after_functions_more [OF ne])
qed

lemma fire_listeners_ctx:
  "ctx (fire_listeners n sched sys) = ctx sys \<and>
   closeListeners (fire_listeners n sched sys) = closeListeners sys \<and>
   waitUntilCalls (fire_listeners n sched sys) = waitUntilCalls sys \<and>
   rejectionHandled (fire_listeners n sched sys) = rejectionHandled sys"
  by (induction n arbitrary: sys)
    (simp_all add: runCallbacksOnClose_resume_def split: prod.splits)

lemma close_signal_ctx:
  "ctx (close_signal sched sys) = ctx sys \<and> closeListeners (close_signal sched sys) = 0 \<and>
   waitUntilCalls (close_signal sched sys) = waitUntilCalls sys"
  by (simp add: close_signal_def fire_listeners_ctx)

lemma close_signal_idle: "closeListeners sys = 0 \<Longrightarrow> close_signal sched sys = sys"
  by (simp add: close_signal_def)

lemma close_signal_one:
  "closeListeners sys = Suc 0 \<Longrightarrow>
   close_signal sched sys = runCallbacksOnClose_resume sched (sys\<lparr>closeListeners := 0\<rparr>)"
  by (simp add: close_signal_def)

lemma resume_nonempty:
  fixes sys :: "('u, 'x) system" and store :: "'x AfterContextGuard RequestStore"
  assumes "afterCallbacks (ctx sys) \<noteq> []" "requestStore (ctx sys) = Some rs"
    and "wrapRequestStoreForAfterCallbacks rs (heap (world sys)) = (store, h)"
    and "drain store (cacheScope (ctx sys)) (afterCallbacks (ctx sys)) sched
           (console sys, (world sys)\<lparr>heap := h\<rparr>) = (as, (c', w'))"
  shows "runCallbacksOnClose_resume sched sys =
     sys\<lparr>console := c', world := w',
         drainJobs := drainJobs sys @ [if list_all (\<lambda>a. a = Done) as then Fulfilled else Pending]\<rparr>"
  using assms
  by (simp add: runCallbacksOnClose_resume_def runCallbacks_nonempty runCallbacksImpl_drain)

text \<open>
  C3. From a state with \<open>waitUntil\<close> and \<open>onClose\<close> defined, the request store set, an
  empty queue and no close listener, scheduling any \<open>N \<ge> 1\<close> functions: every call of
  \<open>after\<close> returns; \<open>waitUntil\<close> has been called exactly once more, with the drain job,
  and one listener waits for the close signal; the queue holds the \<open>N\<close> functions; no
  callback has run (world, console and drain jobs are as before). When the close signal
  fires, under any schedule of the event loop, exactly one drain job is recorded, and
  its pass has called all \<open>N\<close> callbacks: there are \<open>N\<close> call results, the world is the
  one that the whole queue and the schedule give with no error handling at all, the
  console has gained the entries of the synchronous throws and of the rejections the
  async functions were resumed with, and further turns bring all \<open>N\<close> async functions
  to rest. \<open>waitUntil\<close> has still been called once, and a second close signal, whatever
  its schedule, changes nothing.
\<close>

theorem drain_once_after_close:
  fixes sys :: "('u, 'x) system" and store :: "'x AfterContextGuard RequestStore"
  assumes wu: "waitUntil (ctx sys)" and oc: "onClose (ctx sys)"
    and rs: "requestStore (ctx sys) = Some rs"
    and empty: "afterCallbacks (ctx sys) = []" and idle: "closeListeners sys = 0"
    and ne: "tfs \<noteq> []"
    and sched: "map_state after (map (\<lambda>(t, f). JsFunction t f) tfs) sys = (results, sys1)"
    and wr: "wrapRequestStoreForAfterCallbacks rs (heap (world sys)) = (store, h)"
    and ca: "call_all store (cacheScope (ctx sys)) (map snd tfs) turns
               ((world sys)\<lparr>heap := h\<rparr>) = (invs, ps, w2)"
    and dr: "drain store (cacheScope (ctx sys)) (map snd tfs) turns
               (console sys, (world sys)\<lparr>heap := h\<rparr>) = (as, (c', w'))"
  shows "results = replicate (length tfs) (Inr ()) \<and>
         waitUntilCalls sys1 = waitUntilCalls sys @ [WaitDrainJob] \<and>
         closeListeners sys1 = 1 \<and>
         afterCallbacks (ctx sys1) = map snd tfs \<and>
         world sys1 = world sys \<and> console sys1 = console sys \<and>
         drainJobs sys1 = drainJobs sys \<and>
         drainJobs (close_signal turns sys1) =
           drainJobs sys @ [if list_all (\<lambda>a. a = Done) as then Fulfilled else Pending] \<and>
         world (close_signal turns sys1) = w2 \<and>
         length invs = length tfs \<and> list_all2 tracks as ps \<and>
         (\<exists>es. console (close_signal turns sys1) =
                 console sys @ map log_entry (thrown invs) @ map log_entry es \<and>
               mset es = all_caught as ps) \<and>
         (\<exists>extra. list_all at_rest
            (fst (drain store (cacheScope (ctx sys)) (map snd tfs) (turns @ extra)
                    (console sys, (world sys)\<lparr>heap := h\<rparr>)))) \<and>
         waitUntilCalls (close_signal turns sys1) = waitUntilCalls sys @ [WaitDrainJob] \<and>
         close_signal turns' (close_signal turns sys1) = close_signal turns sys1"
proof -
  let ?s1 = "sys\<lparr>ctx := (ctx sys)\<lparr>afterCallbacks := map snd tfs\<rparr>,
                  waitUntilCalls := waitUntilCalls sys @ [WaitDrainJob],
                  closeListeners := Suc (closeListeners sys)\<rparr>"
  from sched after_functions_first [OF empty wu oc rs ne]
  have res: "results = replicate (length tfs) (Inr ())" and s1: "sys1 = ?s1"
    by simp_all
  let ?s0 = "?s1\<lparr>closeListeners := 0\<rparr>"
  have one: "closeListeners ?s1 = Suc 0" using idle by simp
  have q: "afterCallbacks (ctx ?s0) \<noteq> []" using ne by simp
  have r0: "requestStore (ctx ?s0) = Some rs" using rs by simp
  have w0: "wrapRequestStoreForAfterCallbacks rs (heap (world ?s0)) = (store, h)"
    using wr by simp
  have d0: "drain store (cacheScope (ctx ?s0)) (afterCallbacks (ctx ?s0)) turns
             (console ?s0, (world ?s0)\<lparr>heap := h\<rparr>) = (as, (c', w'))"
    using dr by simp
  have cs: "close_signal turns sys1 =
      ?s0\<lparr>console := c', world := w',
          drainJobs := drainJobs ?s0 @ [if list_all (\<lambda>a. a = Done) as then Fulfilled else Pending]\<rparr>"
    unfolding s1 close_signal_one [OF one] by (rule resume_nonempty [OF q r0 w0 d0])
  have again: "close_signal turns' (close_signal turns sys1) = close_signal turns sys1"
    by (rule close_signal_idle) (simp add: close_signal_ctx)
  from drain_tracks [OF ca dr] obtain es where
    w: "w' = w2" and len: "length invs = length tfs" and t: "list_all2 tracks as ps"
    and c: "c' = console sys @ map log_entry (thrown invs) @ map log_entry es"
    and m: "mset es = all_caught as ps"
    by auto
  have d: "drainJobs (close_signal turns sys1) =
      drainJobs sys @ [if list_all (\<lambda>a. a = Done) as then Fulfilled else Pending]"
    by (simp add: cs)
  have wd: "world (close_signal turns sys1) = w2" by (simp add: cs w)
  have co: "\<exists>es. console (close_signal turns sys1) =
        console sys @ map log_entry (thrown invs) @ map log_entry es \<and>
      mset es = all_caught as ps"
    using c m by (intro exI [of _ es]) (simp add: cs)
  have u: "waitUntilCalls (close_signal turns sys1) = waitUntilCalls sys @ [WaitDrainJob]"
    by (simp add: cs)
  have before: "waitUntilCalls sys1 = waitUntilCalls sys @ [WaitDrainJob] \<and>
      closeListeners sys1 = 1 \<and> afterCallbacks (ctx sys1) = map snd tfs \<and>
      world sys1 = world sys \<and> console sys1 = console sys \<and> drainJobs sys1 = drainJobs sys"
    using idle by (simp add: s1)
  have e: "\<exists>extra. list_all at_rest
      (fst (drain store (cacheScope (ctx sys)) (map snd tfs) (turns @ extra)
              (console sys, (world sys)\<lparr>heap := h\<rparr>)))"
    by (rule drain_can_rest)
  from res before d wd len t co e u again show ?thesis by blast
qed

lemma example_running_eq:
  "example_running =
     \<lparr>ctx = \<lparr>waitUntil = True, onClose = True, cacheScope = False,
             requestStore = Some example_store, afterCallbacks = []\<rparr>,
      waitUntilCalls = [], closeListeners = 0, rejectionHandled = {},
      console = [], drainJobs = [], world = example_world\<rparr>"
  by (simp add: example_running_def run_def example_system_def initial_system_def
      createAfterContext_def)

lemma example_scheduled_eq:
  "example_scheduled =
     \<lparr>ctx = \<lparr>waitUntil = True, onClose = True, cacheScope = False,
             requestStore = Some example_store, afterCallbacks = map snd example_tasks\<rparr>,
      waitUntilCalls = [WaitDrainJob], closeListeners = 1, rejectionHandled = {},
      console = [], drainJobs = [], world = example_world\<rparr>"
  by (simp add: example_scheduled_def example_running_eq example_tasks_def after_function
      addCallback_def push_callback_def call_waitUntil_def runCallbacksOnClose_start_def)

lemma example_spent_eq:
  "example_spent =
     \<lparr>ctx = \<lparr>waitUntil = True, onClose = True, cacheScope = False,
             requestStore = Some example_store, afterCallbacks = map snd example_tasks\<rparr>,
      waitUntilCalls = [WaitDrainJob], closeListeners = 0, rejectionHandled = {},
      console = [log_entry (Error ''boom'')], drainJobs = [Fulfilled],
      world = \<lparr>heap = example_heap @ [HeadersObj [], ResponseCookiesObj 6 []],
               user = [''a'', ''c'']\<rparr>\<rparr>"
  by (simp add: example_spent_def example_scheduled_eq close_signal_def
      runCallbacksOnClose_resume_def runCallbacks_def wrap_result runCallbacksImpl_def
      drain_def start_callback_def resume_callback_def promise_of_def example_tasks_def
      note_cb_def throwing_cb_def console_error_def log_entry_def example_world_def
      example_heap_def)

theorem drain_once_after_close_witness:
  "waitUntilCalls example_scheduled = [WaitDrainJob] \<and>
   user (world example_scheduled) = [] \<and>
   drainJobs example_scheduled = [] \<and>
   user (world (close_signal [2, 0] example_scheduled)) = [''a'', ''c''] \<and>
   drainJobs (close_signal [2, 0] example_scheduled) = [Fulfilled] \<and>
   console (close_signal [2, 0] example_scheduled) = [log_entry (Error ''boom'')] \<and>
   close_signal [0, 1] (close_signal [2, 0] example_scheduled)
     = close_signal [2, 0] example_scheduled"
proof -
  let ?X = "map_state after (map (\<lambda>(t, f). JsFunction t f) example_tasks) example_running"
  let ?W = "wrapRequestStoreForAfterCallbacks example_store (heap (world example_running))
              :: nat AfterContextGuard RequestStore \<times> js_heap"
  let ?C = "call_all (fst ?W) (cacheScope (ctx example_running)) (map snd example_tasks)
              [2, 0] ((world example_running)\<lparr>heap := snd ?W\<rparr>)"
  let ?D = "drain (fst ?W) (cacheScope (ctx example_running)) (map snd example_tasks)
              [2, 0] (console example_running, (world example_running)\<lparr>heap := snd ?W\<rparr>)"
  have wu: "waitUntil (ctx example_running)" and oc: "onClose (ctx example_running)"
    and rs: "requestStore (ctx example_running) = Some example_store"
    and empty: "afterCallbacks (ctx example_running) = []"
    and idle: "closeListeners example_running = 0"
    by (simp_all add: example_running_eq)
  have ne: "example_tasks \<noteq> []" by (simp add: example_tasks_def)
  have sched: "?X = (fst ?X, snd ?X)" by simp
  have wr: "?W = (fst ?W, snd ?W)" by simp
  have ca: "?C = (fst ?C, fst (snd ?C), snd (snd ?C))" by simp
  have dr: "?D = (fst ?D, fst (snd ?D), snd (snd ?D))" by simp
  have sp: "close_signal [2, 0] example_scheduled = example_spent"
    by (simp add: example_spent_def)
  have g: ?thesis
    unfolding sp
    by (simp add: example_spent_eq example_scheduled_eq example_world_def close_signal_def)
  from drain_once_after_close [OF wu oc rs empty idle ne sched wr ca dr, of "[0, 1]"]
  show ?thesis by - (rule g)
qed

section \<open>After the drain\<close>

text \<open>
  C1 (amended). \<open>AfterContextImpl\<close> has no state that marks it as spent. After the close
  signal has fired and the drain has run, under any schedule, \<open>run\<close> called again on
  the context sets the request store and returns whatever the callback returns: it does
  not throw by itself. The queue is not emptied by the drain, so \<open>after\<close> with a
  function returns normally and appends the function to the queue; \<open>waitUntil\<close> is not
  called again and a later close signal runs nothing, so that function is never run.
  \<open>after\<close> and \<open>run\<close> throw only when they are reached through the \<open>afterContext\<close> of
  the wrapped request store that callbacks see during the drain.
\<close>

theorem context_not_spent_after_drain:
  fixes sys :: "('u, 'x) system"
  shows "run rs body (close_signal turns sys) =
           body (cacheScope (ctx sys))
             ((close_signal turns sys)\<lparr>ctx := (ctx sys)\<lparr>requestStore := Some rs\<rparr>\<rparr>) \<and>
         afterCallbacks (ctx (close_signal turns sys)) = afterCallbacks (ctx sys) \<and>
         (afterCallbacks (ctx sys) \<noteq> [] \<longrightarrow>
            after (JsFunction t f) (close_signal turns sys)
              = (Inr (), push_callback f (close_signal turns sys)) \<and>
            waitUntilCalls (push_callback f (close_signal turns sys)) = waitUntilCalls sys \<and>
            close_signal turns' (push_callback f (close_signal turns sys))
              = push_callback f (close_signal turns sys)) \<and>
         guard_after (afterContext (fst (wrapRequestStoreForAfterCallbacks rs h
            :: 'x AfterContextGuard RequestStore \<times> js_heap))) args = Inl errorNestedAfter \<and>
         guard_run (afterContext (fst (wrapRequestStoreForAfterCallbacks rs h
            :: 'x AfterContextGuard RequestStore \<times> js_heap))) args = Inl errorNestedRun"
proof -
  have r: "run rs body (close_signal turns sys) =
      body (cacheScope (ctx sys))
        ((close_signal turns sys)\<lparr>ctx := (ctx sys)\<lparr>requestStore := Some rs\<rparr>\<rparr>)"
    by (simp add: run_def cacheScope_run_def close_signal_ctx Let_def)
  have q: "afterCallbacks (ctx (close_signal turns sys)) = afterCallbacks (ctx sys)"
    by (simp add: close_signal_ctx)
  have a: "after (JsFunction t f) (close_signal turns sys)
      = (Inr (), push_callback f (close_signal turns sys))"
    if "afterCallbacks (ctx sys) \<noteq> []"
    using that by (simp add: after_function addCallback_more q)
  have w: "waitUntilCalls (push_callback f (close_signal turns sys)) = waitUntilCalls sys"
    by (simp add: push_callback_def close_signal_ctx)
  have c: "close_signal turns' (push_callback f (close_signal turns sys))
      = push_callback f (close_signal turns sys)"
    by (rule close_signal_idle) (simp add: push_callback_def close_signal_ctx)
  from r q a w c show ?thesis by (simp add: wrap_result)
qed

theorem context_not_spent_after_drain_witness:
  "afterCallbacks (ctx example_scheduled) \<noteq> [] \<and>
   drainJobs (close_signal [2, 0] example_scheduled) = [Fulfilled] \<and>
   fst (run example_store (\<lambda>inScope s. (Inr (1 :: nat), s))
          (close_signal [2, 0] example_scheduled)) = Inr 1 \<and>
   after (JsFunction ThenAbsent (note_cb ''late'')) (close_signal [2, 0] example_scheduled)
     = (Inr (), push_callback (note_cb ''late'') (close_signal [2, 0] example_scheduled)) \<and>
   user (world (close_signal [3] (push_callback (note_cb ''late'')
      (close_signal [2, 0] example_scheduled)))) = [''a'', ''c'']"
proof -
  have sp: "close_signal [2, 0] example_scheduled = example_spent"
    by (simp add: example_spent_def)
  have g: ?thesis
    unfolding sp
    by (simp add: example_spent_eq example_scheduled_eq example_tasks_def push_callback_def
        run_def after_function addCallback_def close_signal_def)
  from context_not_spent_after_drain [of example_store
      "\<lambda>inScope s. (Inr (1 :: nat), s)" "[2, 0]" example_scheduled ThenAbsent
      "note_cb ''late''" "[3]"]
  show ?thesis by - (rule g)
qed

text \<open>
  Counterexample to C1 as the specification states it, in the example run: once the
  drain job is fulfilled, \<open>run\<close> returns the value of its callback instead of throwing,
  and \<open>after\<close> accepts a fourth function instead of rejecting it.
\<close>

theorem context_spent_counterexample:
  "drainJobs example_spent = [Fulfilled] \<and>
   fst (run example_store (\<lambda>inScope s. (Inr (1 :: nat), s)) example_spent) = Inr 1 \<and>
   fst (after (JsFunction ThenAbsent (note_cb ''late'')) example_spent) = Inr () \<and>
   length (afterCallbacks (ctx (snd (after (JsFunction ThenAbsent (note_cb ''late''))
      example_spent)))) = 4"
  by (simp add: example_spent_eq run_def after_function addCallback_def push_callback_def
      example_tasks_def)

end
